theory Spec2Isabelle
  imports Main "HOL-Library.Sublist"
begin

section \<open>Strings as Python has them\<close>

text \<open>
  A Python \<open>str\<close> is a sequence of code points. The model takes \<open>string\<close> (a list of
  \<open>char\<close>), one \<open>char\<close> per code point, which covers the code points below 256. On that
  range \<open>str.isspace\<close>, \<open>str.strip()\<close> and the regular expression class \<open>\s\<close> of a
  \<open>str\<close> pattern agree on the twelve characters listed in \<open>isspace\<close>.
\<close>

definition isspace :: "char \<Rightarrow> bool" where
  "isspace c = (c \<in> {CHR 0x09, CHR 0x0A, CHR 0x0B, CHR 0x0C, CHR 0x0D,
                      CHR 0x1C, CHR 0x1D, CHR 0x1E, CHR 0x1F, CHR 0x20, CHR 0x85, CHR 0xA0})"

text \<open>\<open>s.strip()\<close>: whitespace removed at both ends.\<close>

definition strip :: "string \<Rightarrow> string" where
  "strip s = rev (dropWhile isspace (rev (dropWhile isspace s)))"

text \<open>\<open>s.strip(chars)\<close>: every leading and trailing character that occurs in \<open>chars\<close> removed.\<close>

definition strip_chars :: "string \<Rightarrow> string \<Rightarrow> string" where
  "strip_chars chars s =
     rev (dropWhile (\<lambda>c. c \<in> set chars) (rev (dropWhile (\<lambda>c. c \<in> set chars) s)))"

text \<open>\<open>sub in s\<close>: \<open>sub\<close> occurs in \<open>s\<close> as a contiguous block.\<close>

fun contains :: "string \<Rightarrow> string \<Rightarrow> bool" where
  "contains sub [] = (sub = [])"
| "contains sub (c # cs) = (prefix sub (c # cs) \<or> contains sub cs)"

text \<open>
  \<open>s.split(sep)\<close> for a non-empty separator: the text is scanned from the left, every
  occurrence of \<open>sep\<close> found closes the current piece and the scan goes on behind it.
  (For an empty separator Python raises; the code only splits at \<open>FINAL_ANSWER_TOKEN\<close>.)
\<close>

function split_py :: "string \<Rightarrow> string \<Rightarrow> string list" where
  "split_py sep [] = [[]]"
| "split_py sep (c # cs) =
     (if sep \<noteq> [] \<and> prefix sep (c # cs)
      then [] # split_py sep (drop (length sep) (c # cs))
      else (case split_py sep cs of
              [] \<Rightarrow> [[c]]
            | p # ps \<Rightarrow> (c # p) # ps))"
  by pat_completeness auto
termination
  by (relation "measure (\<lambda>(sep, s). length s)") (auto simp: neq_Nil_conv)

text \<open>\<open>'\n'.join(xs)\<close>\<close>

fun join_nl :: "string list \<Rightarrow> string" where
  "join_nl [] = []"
| "join_nl [x] = x"
| "join_nl (x # y # ys) = x @ [CHR 0x0A] @ join_nl (y # ys)"

section \<open>The constants of the notebook\<close>

definition FINAL_ANSWER_TOKEN :: string where
  "FINAL_ANSWER_TOKEN = ''Final Answer:''"

definition OBSERVATION_TOKEN :: string where
  "OBSERVATION_TOKEN = ''Observation:''"

definition THOUGHT_TOKEN :: string where
  "THOUGHT_TOKEN = ''Thought:''"

section \<open>The regular expression of \<open>_get_tool_and_input\<close>\<close>

text \<open>
  \<^verbatim>\<open>regex = r"Action: [\[]?(.*?)[\]]?[\n]*Action Input:[\s]*(.*)"\<close>, searched with
  \<open>re.DOTALL\<close>. Each function below is one piece of the pattern, matched at the head of
  its argument together with all that follows it in the pattern, in the order in which
  the backtracking matcher of \<open>re\<close> tries the alternatives: a greedy piece takes as
  much as it can first, the lazy group as little as it can first. The result is the pair
  of the two groups.
\<close>

text \<open>
  \<open>Action Input:[\s]*(.*)\<close>. The greedy \<open>[\s]*\<close> takes the whole run of whitespace, and
  \<open>(.*)\<close> (the dot matches a newline too) takes all the rest, so the first attempt
  succeeds and the second group is what follows the whitespace.
\<close>

definition m_input :: "string \<Rightarrow> string option" where
  "m_input s =
     (if prefix ''Action Input:'' s
      then Some (dropWhile isspace (drop (length ''Action Input:'') s))
      else None)"

text \<open>\<open>[\n]*\<close>, greedy: one more newline first, and only then the rest of the pattern here.\<close>

fun m_newlines :: "string \<Rightarrow> string option" where
  "m_newlines [] = m_input []"
| "m_newlines (c # cs) =
     (if c = CHR 0x0A
      then (case m_newlines cs of
              Some g2 \<Rightarrow> Some g2
            | None \<Rightarrow> m_input (c # cs))
      else m_input (c # cs))"

text \<open>\<open>[\]]?\<close>, greedy: with the bracket first, then without.\<close>

definition m_close :: "string \<Rightarrow> string option" where
  "m_close s =
     (case s of
        [] \<Rightarrow> m_newlines s
      | c # cs \<Rightarrow>
          if c = CHR '']''
          then (case m_newlines cs of
                  Some g2 \<Rightarrow> Some g2
                | None \<Rightarrow> m_newlines s)
          else m_newlines s)"

text \<open>
  \<open>(.*?)\<close>, lazy: the rest of the pattern is tried first, and the group takes one more
  character (any character) only when that fails. \<open>acc\<close> is the group so far, reversed.
\<close>

fun m_name :: "string \<Rightarrow> string \<Rightarrow> (string \<times> string) option" where
  "m_name acc [] =
     (case m_close [] of
        Some g2 \<Rightarrow> Some (rev acc, g2)
      | None \<Rightarrow> None)"
| "m_name acc (c # cs) =
     (case m_close (c # cs) of
        Some g2 \<Rightarrow> Some (rev acc, g2)
      | None \<Rightarrow> m_name (c # acc) cs)"

text \<open>\<open>[\[]?\<close>, greedy: with the bracket first, then without.\<close>

definition m_open :: "string \<Rightarrow> (string \<times> string) option" where
  "m_open s =
     (case s of
        [] \<Rightarrow> m_name [] s
      | c # cs \<Rightarrow>
          if c = CHR ''[''
          then (case m_name [] cs of
                  Some r \<Rightarrow> Some r
                | None \<Rightarrow> m_name [] s)
          else m_name [] s)"

text \<open>The literal \<open>Action: \<close> (with its space) and all that follows.\<close>

definition m_action :: "string \<Rightarrow> (string \<times> string) option" where
  "m_action s =
     (if prefix ''Action: '' s then m_open (drop (length ''Action: '') s) else None)"

text \<open>\<open>re.search\<close>: the match at the leftmost position where there is one.\<close>

fun re_search :: "string \<Rightarrow> (string \<times> string) option" where
  "re_search [] = m_action []"
| "re_search (c # cs) =
     (case m_action (c # cs) of
        Some r \<Rightarrow> Some r
      | None \<Rightarrow> re_search cs)"

section \<open>The output parser\<close>

datatype error =
    ValueError string
  | KeyError string
  | IndexError
  | FormatError

text \<open>
  \<open>Agent._get_tool_and_input\<close>. The code returns a pair in both successful branches; a
  final answer is the pair whose first component is the literal \<open>Final Answer\<close>.
\<close>

definition get_tool_and_input :: "string \<Rightarrow> error + string \<times> string" where
  "get_tool_and_input generated =
     (if contains FINAL_ANSWER_TOKEN generated
      then Inr (''Final Answer'', strip (last (split_py FINAL_ANSWER_TOKEN generated)))
      else (case re_search generated of
              None \<Rightarrow>
                Inl (ValueError
                  (''Output of LLM is not parsable for next tool use: `'' @ generated @ ''`''))
            | Some (g1, g2) \<Rightarrow>
                Inr (strip g1, strip_chars [CHR 0x22] (strip_chars '' '' g2))))"

section \<open>Rendering the prompt\<close>

text \<open>
  \<open>prompt.format(previous_responses=v)\<close>. The template is read from the left: \<open>{{\<close> and
  \<open>}}\<close> stand for one brace, \<open>{previous_responses}\<close> is replaced by \<open>v\<close>, any other
  character is copied. \<open>FormatError\<close> stands for whatever \<open>str.format\<close> raises (a lone
  brace, a field that is not among the arguments) and for the replacement fields this
  model leaves out (a conversion, a format specification, an attribute or an index
  after the name): where the model returns a string, Python returns that string.
\<close>

function format_py :: "string \<Rightarrow> string \<Rightarrow> error + string" where
  "format_py [] v = Inr []"
| "format_py (c # cs) v =
     (if c = CHR ''{'' then
        (case cs of
           [] \<Rightarrow> Inl FormatError
         | d # ds \<Rightarrow>
             if d = CHR ''{'' then
               (case format_py ds v of Inl e \<Rightarrow> Inl e | Inr r \<Rightarrow> Inr (CHR ''{'' # r))
             else if prefix ''previous_responses}'' cs then
               (case format_py (drop (length ''previous_responses}'') cs) v of
                  Inl e \<Rightarrow> Inl e
                | Inr r \<Rightarrow> Inr (v @ r))
             else Inl FormatError)
      else if c = CHR ''}'' then
        (case cs of
           [] \<Rightarrow> Inl FormatError
         | d # ds \<Rightarrow>
             if d = CHR ''}'' then
               (case format_py ds v of Inl e \<Rightarrow> Inl e | Inr r \<Rightarrow> Inr (CHR ''}'' # r))
             else Inl FormatError)
      else (case format_py cs v of Inl e \<Rightarrow> Inl e | Inr r \<Rightarrow> Inr (c # r)))"
  by pat_completeness auto
termination
  by (relation "measure (\<lambda>(t, v). length t)") auto

section \<open>The agent\<close>

text \<open>
  The language model and the tools are code from outside the notebook. Both may keep
  state and act on the world, so each takes the world \<open>'w\<close> and returns it changed.
  \<open>llm\<close> stands for \<open>self.llm.generate(prompts, stop=...)\<close> followed by
  \<open>.generations\<close> with every generation reduced to its \<open>text\<close>; \<open>func\<close> stands for
  \<open>Tool.run\<close>.
  An exception raised inside the language model or inside a tool is not part of the
  model: both return.
\<close>

record 'w tool =
  name :: string
  func :: "string \<Rightarrow> 'w \<Rightarrow> string \<times> 'w"
  description :: string

record 'w agent =
  llm :: "string list \<Rightarrow> string list \<Rightarrow> 'w \<Rightarrow> string list list \<times> 'w"
  prompt :: string
  tools :: "'w tool list"
  max_loops :: int
  stop_pattern :: "string list"

text \<open>
  The calls an execution makes, in order: the prompt of each call of the language model,
  the name and input of each tool that is run, each text printed.
\<close>

datatype event =
    Generate string
  | Invoke string string
  | Print string

text \<open>
  The local variables of \<open>run\<close>, the world, and the log of the calls made so far.
\<close>

record 'w run_state =
  previous_responses :: "string list"
  num_loops :: int
  world :: 'w
  calls :: "event list"

text \<open>\<open>{tool.name: tool for tool in self.tools}\<close>: a later tool replaces an earlier one of
  the same name.\<close>

definition name_to_tool_map :: "'w tool list \<Rightarrow> (string \<rightharpoonup> 'w tool)" where
  "name_to_tool_map ts = fold (\<lambda>t m. m(name t \<mapsto> t)) ts Map.empty"

text \<open>\<open>Agent._get_next_action\<close>; \<open>generations[0][0]\<close> raises \<open>IndexError\<close> on an empty list.\<close>

definition get_next_action ::
  "'w agent \<Rightarrow> string \<Rightarrow> 'w \<Rightarrow> (error + string \<times> string \<times> string) \<times> 'w" where
  "get_next_action self p w =
     (case llm self [p] (stop_pattern self) w of
        (generations, w') \<Rightarrow>
          (case generations of
             [] \<Rightarrow> (Inl IndexError, w')
           | g # _ \<Rightarrow>
               (case g of
                  [] \<Rightarrow> (Inl IndexError, w')
                | output # _ \<Rightarrow>
                    (case get_tool_and_input output of
                       Inl e \<Rightarrow> (Inl e, w')
                     | Inr (tool, tool_input) \<Rightarrow> (Inr (output, tool, tool_input), w')))))"

text \<open>
  One pass through the body of the \<open>while\<close> loop of \<open>Agent.run\<close>. The pass either ends
  the run, by a \<open>return\<close> (\<open>Inr\<close>) or an exception (\<open>Inl\<close>), or hands the state to the
  next pass. The template is the module's global variable \<open>prompt\<close>, which the code
  reads at every pass and which is taken to stay the same while a run lasts; the field
  \<open>prompt\<close> of the agent is not read.
\<close>

datatype 'w outcome =
    Stop "error + string option" "'w run_state"
  | Continue "'w run_state"

definition iteration ::
  "string \<Rightarrow> 'w agent \<Rightarrow> (string \<rightharpoonup> 'w tool) \<Rightarrow> 'w run_state \<Rightarrow> 'w outcome" where
  "iteration global_prompt self tool_map s =
     (let s1 = s\<lparr>num_loops := num_loops s + 1\<rparr> in
      case format_py global_prompt (join_nl (previous_responses s1)) of
        Inl e \<Rightarrow> Stop (Inl e) s1
      | Inr curr_prompt \<Rightarrow>
          (let s2 = s1\<lparr>calls := calls s1 @ [Generate curr_prompt]\<rparr> in
           case get_next_action self curr_prompt (world s2) of
             (Inl e, w) \<Rightarrow> Stop (Inl e) (s2\<lparr>world := w\<rparr>)
           | (Inr (output, tool, tool_input), w) \<Rightarrow>
               if tool = ''Final Answer'' then Stop (Inr (Some tool_input)) (s2\<lparr>world := w\<rparr>)
               else
                 (case tool_map tool of
                    None \<Rightarrow> Stop (Inl (KeyError tool)) (s2\<lparr>world := w\<rparr>)
                  | Some t \<Rightarrow>
                      (case func t tool_input w of
                         (tool_result, w') \<Rightarrow>
                           (let output' = output @ [CHR 0x0A] @ OBSERVATION_TOKEN @ '' '' @
                                          tool_result @ [CHR 0x0A] @ THOUGHT_TOKEN
                            in Continue (s2\<lparr>previous_responses := previous_responses s2 @ [output'],
                                             world := w',
                                             calls := calls s2 @ [Invoke tool tool_input, Print output']\<rparr>))))))"

text \<open>The \<open>while\<close> loop; falling out of it, \<open>run\<close> returns \<open>None\<close>.\<close>

function run_loop ::
  "string \<Rightarrow> 'w agent \<Rightarrow> (string \<rightharpoonup> 'w tool) \<Rightarrow> 'w run_state
     \<Rightarrow> (error + string option) \<times> 'w run_state" where
  "run_loop global_prompt self tool_map s =
     (if num_loops s < max_loops self
      then (case iteration global_prompt self tool_map s of
              Stop r s' \<Rightarrow> (r, s')
            | Continue s' \<Rightarrow> run_loop global_prompt self tool_map s')
      else (Inr None, s))"
  by pat_completeness auto
termination
  by (relation "measure (\<lambda>(g, self, m, s). nat (max_loops self - num_loops s))")
     (auto simp: iteration_def Let_def split: sum.splits prod.splits if_splits option.splits)

declare run_loop.simps [simp del]

text \<open>\<open>Agent.run\<close>. The argument \<open>question\<close> is not used by the code.\<close>

definition run ::
  "string \<Rightarrow> 'w agent \<Rightarrow> string \<Rightarrow> 'w \<Rightarrow> (error + string option) \<times> 'w run_state" where
  "run global_prompt self question w =
     run_loop global_prompt self (name_to_tool_map (tools self))
       \<lparr>previous_responses = [], num_loops = 0, world = w, calls = []\<rparr>"

section \<open>Measures on states and logs\<close>

text \<open>The record that a pass of the loop appends to \<open>previous_responses\<close>.\<close>

definition record_of :: "string \<Rightarrow> string \<Rightarrow> string" where
  "record_of output tool_result =
     output @ [CHR 0x0A] @ OBSERVATION_TOKEN @ '' '' @ tool_result @ [CHR 0x0A] @ THOUGHT_TOKEN"

text \<open>How many calls of the language model, and how many runs of a tool, a log holds.\<close>

definition llm_calls :: "event list \<Rightarrow> nat" where
  "llm_calls es = length (filter (\<lambda>e. case e of Generate _ \<Rightarrow> True | _ \<Rightarrow> False) es)"

definition tool_runs :: "event list \<Rightarrow> nat" where
  "tool_runs es = length (filter (\<lambda>e. case e of Invoke _ _ \<Rightarrow> True | _ \<Rightarrow> False) es)"

section \<open>Language models and tools to run the agent on\<close>

text \<open>A language model that gives the same single generation at every call.\<close>

definition const_llm :: "string \<Rightarrow> string list \<Rightarrow> string list \<Rightarrow> 'w \<Rightarrow> string list list \<times> 'w" where
  "const_llm out prompts stop w = ([[out]], w)"

text \<open>
  A language model that reads its outputs off a script, one per call; the script is the
  world. With the script used up it gives no generation.
\<close>

definition scripted_llm :: "string list \<Rightarrow> string list \<Rightarrow> string list \<Rightarrow> string list list \<times> string list" where
  "scripted_llm prompts stop w = (case w of [] \<Rightarrow> ([], []) | out # rest \<Rightarrow> ([[out]], rest))"

text \<open>A tool that gives the same result for every input.\<close>

definition fixed_tool :: "string \<Rightarrow> string \<Rightarrow> 'w tool" where
  "fixed_tool nm res = \<lparr>name = nm, func = (\<lambda>tool_input w. (res, w)), description = []\<rparr>"


section \<open>The action grammar\<close>

text \<open>
  The action grammar in the words of the specification: an \<open>Action:\<close> label with a tool
  name, followed, possibly across newlines, by an \<open>Action Input:\<close> label and the
  remaining text.
\<close>

definition action_grammar :: "string \<Rightarrow> bool" where
  "action_grammar s = (\<exists>u v w. s = u @ ''Action:'' @ v @ ''Action Input:'' @ w)"

text \<open>
  The texts in which the regular expression of the code finds a match: the literal of
  the pattern is \<open>Action: \<close>, the label and one space behind it.
\<close>

definition action_pattern :: "string \<Rightarrow> bool" where
  "action_pattern s = (\<exists>u v w. s = u @ ''Action: '' @ v @ ''Action Input:'' @ w)"

text \<open>
  How \<open>Agent.run\<close> reads the pair that the parser returns: \<open>if tool == 'Final Answer'\<close>
  the pair is a final answer, any other pair is a call of a tool.
\<close>

definition is_final_answer :: "string \<times> string \<Rightarrow> bool" where
  "is_final_answer action = (fst action = ''Final Answer'')"

section \<open>Templates as pieces\<close>







section \<open>The passes of a run\<close>

text \<open>
  The state in which the loop stands after \<open>n\<close> passes that each ran a tool; \<open>None\<close> when
  the loop has ended before.
\<close>

fun after_passes ::
  "string \<Rightarrow> 'w agent \<Rightarrow> (string \<rightharpoonup> 'w tool) \<Rightarrow> nat \<Rightarrow> 'w run_state \<Rightarrow> 'w run_state option" where
  "after_passes global_prompt self tool_map 0 s = Some s"
| "after_passes global_prompt self tool_map (Suc n) s =
     (if num_loops s < max_loops self
      then (case iteration global_prompt self tool_map s of
              Stop r s' \<Rightarrow> None
            | Continue s' \<Rightarrow> after_passes global_prompt self tool_map n s')
      else None)"


section \<open>Facts about the string operations\<close>

lemma contains_iff: "contains sub s \<longleftrightarrow> (\<exists>u v. s = u @ sub @ v)"
proof (induction s)
  case Nil
  then show ?case by auto
next
  case (Cons c cs)
  show ?case
  proof
    assume "contains sub (c # cs)"
    then consider "prefix sub (c # cs)" | "contains sub cs" by auto
    then show "\<exists>u v. c # cs = u @ sub @ v"
    proof cases
      case 1
      then obtain v where "c # cs = sub @ v" by (auto simp: prefix_def)
      then have "c # cs = [] @ sub @ v" by simp
      then show ?thesis by blast
    next
      case 2
      with Cons.IH obtain u v where "cs = u @ sub @ v" by blast
      then have "c # cs = (c # u) @ sub @ v" by simp
      then show ?thesis by blast
    qed
  next
    assume "\<exists>u v. c # cs = u @ sub @ v"
    then obtain u v where uv: "c # cs = u @ sub @ v" by blast
    show "contains sub (c # cs)"
    proof (cases u)
      case Nil
      with uv have "prefix sub (c # cs)" by (simp add: prefix_def)
      then show ?thesis by simp
    next
      case (Cons a u')
      with uv have "cs = u' @ sub @ v" by simp
      with Cons.IH have "contains sub cs" by blast
      then show ?thesis by simp
    qed
  qed
qed

lemma split_py_not_Nil: "split_py sep s \<noteq> []"
  by (induction sep s rule: split_py.induct) (auto split: list.splits)

lemma split_py_absent: "\<not> contains sep v \<Longrightarrow> split_py sep v = [v]"
  by (induction v) auto

lemma split_py_two: "sep \<noteq> [] \<Longrightarrow> contains sep s \<Longrightarrow> 2 \<le> length (split_py sep s)"
proof (induction sep s rule: split_py.induct)
  case (1 sep)
  then show ?case by simp
next
  case (2 sep c cs)
  show ?case
  proof (cases "prefix sep (c # cs)")
    case True
    with 2 split_py_not_Nil[of sep "drop (length sep) (c # cs)"] show ?thesis
      by (cases "split_py sep (drop (length sep) (c # cs))") auto
  next
    case False
    with 2 have "2 \<le> length (split_py sep cs)" by auto
    with False show ?thesis by (auto split: list.splits)
  qed
qed


lemma append_eq_cases:
  assumes "a @ b = c @ d"
  obtains z where "a = c @ z" "z @ b = d" | z where "a @ z = c" "b = z @ d"
  using assms append_eq_append_conv2[of a b c d] by blast

lemma no_overlap:
  assumes sep: "sep = c0 # t" "c0 \<notin> set t"
      and eq: "u @ sep @ v = u' @ sep @ v'" and lt: "length u < length u'"
  shows "contains sep v"
proof -
  from eq obtain w where w: "u @ w = u'" "sep @ v = w @ sep @ v'"
  proof (cases rule: append_eq_cases)
    case (1 z)
    then have "length u' \<le> length u" by simp
    with lt show ?thesis by simp
  next
    case (2 z)
    then show ?thesis using that by blast
  qed
  from w(1) lt have wne: "w \<noteq> []" by auto
  from w(2) show ?thesis
  proof (cases rule: append_eq_cases)
    case (1 z)
    show ?thesis
    proof (cases z)
      case Nil
      with 1 have "v = [] @ sep @ v'" by simp
      then show ?thesis unfolding contains_iff by blast
    next
      case (Cons a z')
      with 1(2) sep have "a = c0" by simp
      moreover from 1(1) wne sep Cons have "a \<in> set t" by (cases w) auto
      ultimately show ?thesis using sep by simp
    qed
  next
    case (2 z)
    then have "v = z @ sep @ v'" by simp
    then show ?thesis unfolding contains_iff by blast
  qed
qed

lemma last_split_py:
  assumes sep: "sep = c0 # t" "c0 \<notin> set t"
  shows "s = u @ sep @ v \<Longrightarrow> \<not> contains sep v \<Longrightarrow> last (split_py sep s) = v"
  using sep
proof (induction sep s arbitrary: u rule: split_py.induct)
  case (1 sep)
  then show ?case by simp
next
  case (2 sep c cs)
  note sep' = \<open>sep = c0 # t\<close> \<open>c0 \<notin> set t\<close>
  show ?case
  proof (cases "prefix sep (c # cs)")
    case True
    define r where "r = drop (length sep) (c # cs)"
    from True have cr: "c # cs = sep @ r" by (auto simp: r_def prefix_def)
    have IH: "\<And>u'. r = u' @ sep @ v \<Longrightarrow> last (split_py sep r) = v"
      using "2.IH"(1)[of _] True sep' "2.prems"(2) unfolding r_def by blast
    have "last (split_py sep r) = v"
    proof (cases u)
      case Nil
      with cr "2.prems"(1) have "r = v" by simp
      with "2.prems"(2) show ?thesis by (simp add: split_py_absent)
    next
      case (Cons b u')
      from cr "2.prems"(1) have "sep @ r = u @ sep @ v" by simp
      then have "\<exists>u''. r = u'' @ sep @ v"
      proof (cases rule: append_eq_cases)
        case (1 z)
        show ?thesis
        proof (cases z)
          case Nil
          with 1 have "r = [] @ sep @ v" by simp
          then show ?thesis by blast
        next
          case (Cons a z')
          from 1(2) \<open>z = a # z'\<close> sep' have "a = c0" by simp
          moreover from 1(1) \<open>u = b # u'\<close> \<open>z = a # z'\<close> sep' have "a \<in> set t" by auto
          ultimately show ?thesis using sep' by simp
        qed
      next
        case (2 z)
        then have "r = z @ sep @ v" by simp
        then show ?thesis by blast
      qed
      then show ?thesis using IH by blast
    qed
    moreover have "split_py sep (c # cs) = [] # split_py sep r"
      using True sep' by (simp add: r_def)
    ultimately show ?thesis using split_py_not_Nil[of sep r] by simp
  next
    case False
    with "2.prems"(1) obtain u' where u': "u = c # u'" "cs = u' @ sep @ v"
      by (cases u) (auto simp: prefix_def)
    from False have IH: "\<And>u'. cs = u' @ sep @ v \<Longrightarrow> last (split_py sep cs) = v"
      using "2.IH"(2) sep' "2.prems"(2) by blast
    from u' have "contains sep cs" unfolding contains_iff by blast
    with sep' have "2 \<le> length (split_py sep cs)" by (intro split_py_two) auto
    then obtain p p2 ps where ps: "split_py sep cs = p # p2 # ps"
      by (cases "split_py sep cs"; cases "tl (split_py sep cs)") auto
    from IH[OF u'(2)] ps have "last (p2 # ps) = v" by simp
    then show ?thesis using False ps by simp
  qed
qed

lemma last_occurrence_absent:
  assumes "sep \<noteq> []" and "\<forall>u' v'. u @ sep @ v = u' @ sep @ v' \<longrightarrow> length u' \<le> length u"
  shows "\<not> contains sep v"
proof
  assume "contains sep v"
  then obtain a b where "v = a @ sep @ b" unfolding contains_iff by blast
  then have "u @ sep @ v = (u @ sep @ a) @ sep @ b" by simp
  with assms(2) have "length (u @ sep @ a) \<le> length u" by blast
  with assms(1) show False by simp
qed

lemma absent_last_occurrence:
  assumes "sep = c0 # t" "c0 \<notin> set t" "\<not> contains sep v"
  shows "\<forall>u' v'. u @ sep @ v = u' @ sep @ v' \<longrightarrow> length u' \<le> length u"
proof (intro allI impI)
  fix u' v' assume eq: "u @ sep @ v = u' @ sep @ v'"
  show "length u' \<le> length u"
  proof (rule ccontr)
    assume "\<not> length u' \<le> length u"
    then have "length u < length u'" by simp
    from no_overlap[OF assms(1,2) eq this] assms(3) show False by simp
  qed
qed

section \<open>The final-answer branch of the parser\<close>

lemma marker_shape:
  "FINAL_ANSWER_TOKEN = CHR ''F'' # ''inal Answer:''" "CHR ''F'' \<notin> set ''inal Answer:''"
  by (simp_all add: FINAL_ANSWER_TOKEN_def)

lemma contains_split_last:
  assumes "sep \<noteq> []"
  shows "contains sep g \<Longrightarrow> \<exists>u v. g = u @ sep @ v \<and> \<not> contains sep v"
proof (induction "length g" arbitrary: g rule: less_induct)
  case less
  from less.prems obtain u v where g: "g = u @ sep @ v" unfolding contains_iff by blast
  show ?case
  proof (cases "contains sep v")
    case False
    with g show ?thesis by blast
  next
    case True
    from assms g have "length v < length g" by simp
    from less.hyps[OF this True] obtain a b where "v = a @ sep @ b" "\<not> contains sep b" by blast
    with g have "g = (u @ sep @ a) @ sep @ b" by simp
    with \<open>\<not> contains sep b\<close> show ?thesis by blast
  qed
qed

lemma final_answer_branch:
  assumes "generated = u @ FINAL_ANSWER_TOKEN @ v" and "\<not> contains FINAL_ANSWER_TOKEN v"
  shows "get_tool_and_input generated = Inr (''Final Answer'', strip v)"
proof -
  from assms(1) have "contains FINAL_ANSWER_TOKEN generated" unfolding contains_iff by blast
  moreover have "last (split_py FINAL_ANSWER_TOKEN generated) = v"
    using last_split_py[OF marker_shape assms] .
  ultimately show ?thesis by (simp add: get_tool_and_input_def)
qed

text \<open>
  Claim C2. Where the text contains the final-answer marker, the parser returns the pair
  \<open>Final Answer\<close> and the text that follows the last occurrence of the marker, with the
  whitespace at both ends removed. The occurrence at \<open>u\<close> is the last one: no other
  decomposition of the text around the marker starts further right. In particular the
  answer of \<open>...Final Answer: X\nFinal Answer: Y\<close> is \<open>Y\<close>, whatever stands for the dots.
\<close>

theorem final_answer_after_last_marker:
  "(generated = u @ FINAL_ANSWER_TOKEN @ v \<and>
    (\<forall>u' v'. generated = u' @ FINAL_ANSWER_TOKEN @ v' \<longrightarrow> length u' \<le> length u)
    \<longrightarrow> get_tool_and_input generated = Inr (''Final Answer'', strip v))
   \<and> get_tool_and_input (pre @ ''Final Answer: X'' @ [CHR 0x0A] @ ''Final Answer: Y'')
       = Inr (''Final Answer'', ''Y'')"
proof (intro conjI impI)
  assume h: "generated = u @ FINAL_ANSWER_TOKEN @ v \<and>
    (\<forall>u' v'. generated = u' @ FINAL_ANSWER_TOKEN @ v' \<longrightarrow> length u' \<le> length u)"
  have "FINAL_ANSWER_TOKEN \<noteq> []" by (simp add: FINAL_ANSWER_TOKEN_def)
  with h have "\<not> contains FINAL_ANSWER_TOKEN v"
    using last_occurrence_absent[of FINAL_ANSWER_TOKEN u v] by blast
  with h show "get_tool_and_input generated = Inr (''Final Answer'', strip v)"
    using final_answer_branch by blast
next
  have eq: "pre @ ''Final Answer: X'' @ [CHR 0x0A] @ ''Final Answer: Y''
        = (pre @ ''Final Answer: X'' @ [CHR 0x0A]) @ FINAL_ANSWER_TOKEN @ '' Y''"
    by (simp add: FINAL_ANSWER_TOKEN_def)
  have no: "\<not> contains FINAL_ANSWER_TOKEN '' Y''"
    by (simp add: FINAL_ANSWER_TOKEN_def)
  have "strip '' Y'' = ''Y''" by (simp add: strip_def isspace_def)
  with final_answer_branch[OF eq no]
  show "get_tool_and_input (pre @ ''Final Answer: X'' @ [CHR 0x0A] @ ''Final Answer: Y'')
       = Inr (''Final Answer'', ''Y'')" by simp
qed

theorem final_answer_after_last_marker_witness:
  "get_tool_and_input
     ((''Thought: the Final Answer: may be X'' @ [CHR 0x0A]) @ FINAL_ANSWER_TOKEN @ (''  Paris '' @ [CHR 0x0A]))
     = Inr (''Final Answer'', ''Paris'')"
proof -
  let ?u = "''Thought: the Final Answer: may be X'' @ [CHR 0x0A]"
  let ?v = "''  Paris '' @ [CHR 0x0A]"
  have "\<not> contains FINAL_ANSWER_TOKEN ?v" by (simp add: FINAL_ANSWER_TOKEN_def)
  then have h2: "\<forall>u' v'. ?u @ FINAL_ANSWER_TOKEN @ ?v = u' @ FINAL_ANSWER_TOKEN @ v'
                   \<longrightarrow> length u' \<le> length ?u"
    by (rule absent_last_occurrence[OF marker_shape])
  have s: "strip ?v = ''Paris''" by (simp add: strip_def isspace_def)
  from final_answer_after_last_marker[of "?u @ FINAL_ANSWER_TOKEN @ ?v" ?u ?v] h2
  have "get_tool_and_input (?u @ FINAL_ANSWER_TOKEN @ ?v) = Inr (''Final Answer'', strip ?v)"
    by blast
  then show ?thesis unfolding s .
qed

section \<open>The action branch of the parser\<close>

lemma m_input_not_A: "c \<noteq> CHR ''A'' \<Longrightarrow> m_input (c # cs) = None"
  by (simp add: m_input_def)

lemma m_input_Some:
  "m_input s = Some g2 \<longleftrightarrow> (\<exists>rest. s = ''Action Input:'' @ rest \<and> g2 = dropWhile isspace rest)"
  by (auto simp: m_input_def prefix_def)

lemma m_newlines_eq: "m_newlines s = m_input (dropWhile (\<lambda>c. c = CHR 0x0A) s)"
  by (induction s) (auto simp: m_input_not_A split: option.splits)

lemma m_close_eq:
  "m_close s = (case s of [] \<Rightarrow> None | c # cs \<Rightarrow> if c = CHR '']'' then m_newlines cs else m_newlines s)"
  by (auto simp: m_close_def m_input_not_A m_input_def split: list.splits option.splits)

lemma m_newlines_Some:
  assumes "m_newlines s = Some g2"
  shows "\<exists>nls rest. s = nls @ ''Action Input:'' @ rest \<and> set nls \<subseteq> {CHR 0x0A} \<and> g2 = dropWhile isspace rest"
proof -
  from assms obtain rest where r: "dropWhile (\<lambda>c. c = CHR 0x0A) s = ''Action Input:'' @ rest"
    "g2 = dropWhile isspace rest"
    unfolding m_newlines_eq m_input_Some by blast
  have "s = takeWhile (\<lambda>c. c = CHR 0x0A) s @ dropWhile (\<lambda>c. c = CHR 0x0A) s" by simp
  with r(1) have "s = takeWhile (\<lambda>c. c = CHR 0x0A) s @ ''Action Input:'' @ rest" by simp
  moreover have "set (takeWhile (\<lambda>c. c = CHR 0x0A) s) \<subseteq> {CHR 0x0A}"
    by (auto dest: set_takeWhileD)
  ultimately show ?thesis using r(2) by blast
qed

lemma m_close_Some:
  assumes "m_close s = Some g2"
  shows "\<exists>rb nls rest. s = rb @ nls @ ''Action Input:'' @ rest \<and> (rb = [] \<or> rb = '']'')
           \<and> set nls \<subseteq> {CHR 0x0A} \<and> g2 = dropWhile isspace rest"
proof (cases s)
  case Nil
  with assms show ?thesis by (simp add: m_close_eq)
next
  case (Cons c cs)
  show ?thesis
  proof (cases "c = CHR '']''")
    case True
    with assms Cons have "m_newlines cs = Some g2" by (simp add: m_close_eq)
    from m_newlines_Some[OF this] obtain nls rest where
      "cs = nls @ ''Action Input:'' @ rest" "set nls \<subseteq> {CHR 0x0A}" "g2 = dropWhile isspace rest"
      by blast
    with Cons True have "s = '']'' @ nls @ ''Action Input:'' @ rest" by simp
    with \<open>set nls \<subseteq> {CHR 0x0A}\<close> \<open>g2 = dropWhile isspace rest\<close> show ?thesis by blast
  next
    case False
    with assms Cons have "m_newlines s = Some g2" by (simp add: m_close_eq)
    from m_newlines_Some[OF this] obtain nls rest where
      "s = [] @ nls @ ''Action Input:'' @ rest" "set nls \<subseteq> {CHR 0x0A}" "g2 = dropWhile isspace rest"
      by auto
    then show ?thesis by blast
  qed
qed

lemma m_close_at_label: "m_close (''Action Input:'' @ w) = Some (dropWhile isspace w)"
  by (simp add: m_close_eq m_input_def)

lemma m_name_Some:
  "m_name acc s = Some (g1, g2) \<Longrightarrow> \<exists>k rest. s = k @ rest \<and> g1 = rev acc @ k \<and> m_close rest = Some g2"
proof (induction s arbitrary: acc)
  case Nil
  then show ?case by (auto split: option.splits)
next
  case (Cons c cs)
  show ?case
  proof (cases "m_close (c # cs)")
    case (Some g)
    with Cons.prems have "g1 = rev acc @ []" "g = g2" by auto
    with Some have "c # cs = [] @ (c # cs) \<and> g1 = rev acc @ [] \<and> m_close (c # cs) = Some g2" by simp
    then show ?thesis by blast
  next
    case None
    with Cons.prems have "m_name (c # acc) cs = Some (g1, g2)" by simp
    from Cons.IH[OF this] obtain k rest where "cs = k @ rest" "g1 = rev (c # acc) @ k" "m_close rest = Some g2"
      by blast
    then have "c # cs = (c # k) @ rest \<and> g1 = rev acc @ (c # k) \<and> m_close rest = Some g2" by simp
    then show ?thesis by blast
  qed
qed

lemma m_name_finds: "\<exists>r. m_name acc (v @ ''Action Input:'' @ w) = Some r"
proof (induction v arbitrary: acc)
  case Nil
  show ?case using m_close_at_label[of w] by simp
next
  case (Cons c v)
  show ?case
  proof (cases "m_close ((c # v) @ ''Action Input:'' @ w)")
    case None
    with Cons.IH[of "c # acc"] show ?thesis by simp
  next
    case (Some g)
    then show ?thesis by simp
  qed
qed

lemma m_open_Some:
  assumes "m_open s = Some (g1, g2)"
  shows "\<exists>lb rb nls rest. s = lb @ g1 @ rb @ nls @ ''Action Input:'' @ rest \<and> (lb = [] \<or> lb = ''['')
           \<and> (rb = [] \<or> rb = '']'') \<and> set nls \<subseteq> {CHR 0x0A} \<and> g2 = dropWhile isspace rest"
proof -
  have *: "\<exists>rb nls rest. t = g1 @ rb @ nls @ ''Action Input:'' @ rest
           \<and> (rb = [] \<or> rb = '']'') \<and> set nls \<subseteq> {CHR 0x0A} \<and> g2 = dropWhile isspace rest"
    if "m_name [] t = Some (g1, g2)" for t
  proof -
    from m_name_Some[OF that] obtain rest where t: "t = g1 @ rest" "m_close rest = Some g2" by auto
    from m_close_Some[OF t(2)] t(1) show ?thesis by blast
  qed
  from assms consider cs where "s = CHR ''['' # cs" "m_name [] cs = Some (g1, g2)"
    | "m_name [] s = Some (g1, g2)"
    by (auto simp: m_open_def split: list.splits if_splits option.splits)
  then show ?thesis
  proof cases
    case 1
    from *[OF 1(2)] obtain rb nls rest where "cs = g1 @ rb @ nls @ ''Action Input:'' @ rest"
           "rb = [] \<or> rb = '']''" "set nls \<subseteq> {CHR 0x0A}" "g2 = dropWhile isspace rest" by blast
    with 1(1) have "s = ''['' @ g1 @ rb @ nls @ ''Action Input:'' @ rest" by simp
    with \<open>rb = [] \<or> rb = '']''\<close> \<open>set nls \<subseteq> {CHR 0x0A}\<close> \<open>g2 = dropWhile isspace rest\<close>
    show ?thesis by blast
  next
    case 2
    from *[OF 2] obtain rb nls rest where "s = [] @ g1 @ rb @ nls @ ''Action Input:'' @ rest"
           "rb = [] \<or> rb = '']''" "set nls \<subseteq> {CHR 0x0A}" "g2 = dropWhile isspace rest" by auto
    then show ?thesis by blast
  qed
qed

lemma m_open_finds: "\<exists>r. m_open (v @ ''Action Input:'' @ w) = Some r"
proof (cases v)
  case Nil
  then show ?thesis using m_name_finds[of "[]" "[]" w] by (simp add: m_open_def)
next
  case (Cons c v')
  show ?thesis
  proof (cases "c = CHR ''[''")
    case True
    from m_name_finds[of "[]" v' w] obtain r where "m_name [] (v' @ ''Action Input:'' @ w) = Some r" by blast
    with Cons True show ?thesis by (simp add: m_open_def)
  next
    case False
    from m_name_finds[of "[]" v w] obtain r where "m_name [] (v @ ''Action Input:'' @ w) = Some r" by blast
    with Cons False show ?thesis by (simp add: m_open_def)
  qed
qed

lemma m_action_Some:
  assumes "m_action s = Some (g1, g2)"
  shows "\<exists>lb rb nls rest. s = ''Action: '' @ lb @ g1 @ rb @ nls @ ''Action Input:'' @ rest
           \<and> (lb = [] \<or> lb = ''['') \<and> (rb = [] \<or> rb = '']'') \<and> set nls \<subseteq> {CHR 0x0A}
           \<and> g2 = dropWhile isspace rest"
proof -
  from assms obtain t where t: "s = ''Action: '' @ t" "m_open t = Some (g1, g2)"
    by (auto simp: m_action_def prefix_def split: if_splits)
  from m_open_Some[OF t(2)] t(1) show ?thesis by blast
qed

lemma m_action_finds: "\<exists>r. m_action (''Action: '' @ v @ ''Action Input:'' @ w) = Some r"
  using m_open_finds[of v w] by (simp add: m_action_def)

lemma re_search_Some:
  "re_search s = Some (g1, g2) \<Longrightarrow>
     \<exists>pre lb rb nls rest. s = pre @ ''Action: '' @ lb @ g1 @ rb @ nls @ ''Action Input:'' @ rest
           \<and> (lb = [] \<or> lb = ''['') \<and> (rb = [] \<or> rb = '']'') \<and> set nls \<subseteq> {CHR 0x0A}
           \<and> g2 = dropWhile isspace rest"
proof (induction s)
  case Nil
  then have "m_action [] = Some (g1, g2)" by simp
  from m_action_Some[OF this] show ?case by simp
next
  case (Cons c cs)
  show ?case
  proof (cases "m_action (c # cs)")
    case (Some r)
    with Cons.prems have "m_action (c # cs) = Some (g1, g2)" by simp
    from m_action_Some[OF this] obtain lb rb nls rest where
      "c # cs = [] @ ''Action: '' @ lb @ g1 @ rb @ nls @ ''Action Input:'' @ rest"
      "lb = [] \<or> lb = ''[''" "rb = [] \<or> rb = '']''" "set nls \<subseteq> {CHR 0x0A}"
      "g2 = dropWhile isspace rest" by auto
    then show ?thesis by blast
  next
    case None
    with Cons.prems have "re_search cs = Some (g1, g2)" by simp
    from Cons.IH[OF this] obtain pre lb rb nls rest where
      "cs = pre @ ''Action: '' @ lb @ g1 @ rb @ nls @ ''Action Input:'' @ rest"
      "lb = [] \<or> lb = ''[''" "rb = [] \<or> rb = '']''" "set nls \<subseteq> {CHR 0x0A}"
      "g2 = dropWhile isspace rest" by blast
    then have "c # cs = (c # pre) @ ''Action: '' @ lb @ g1 @ rb @ nls @ ''Action Input:'' @ rest \<and>
      (lb = [] \<or> lb = ''['') \<and> (rb = [] \<or> rb = '']'') \<and> set nls \<subseteq> {CHR 0x0A} \<and>
      g2 = dropWhile isspace rest" by simp
    then show ?thesis by blast
  qed
qed

lemma re_search_finds: "\<exists>r. re_search (u @ ''Action: '' @ v @ ''Action Input:'' @ w) = Some r"
proof (induction u)
  case Nil
  from m_action_finds[of v w] obtain r where "m_action (''Action: '' @ v @ ''Action Input:'' @ w) = Some r"
    by blast
  then show ?case by simp
next
  case (Cons c u)
  then show ?case by (cases "m_action ((c # u) @ ''Action: '' @ v @ ''Action Input:'' @ w)") auto
qed

lemma action_grammarI: "s = u @ ''Action:'' @ v @ ''Action Input:'' @ w \<Longrightarrow> action_grammar s"
  unfolding action_grammar_def by blast

lemma action_patternI: "s = u @ ''Action: '' @ v @ ''Action Input:'' @ w \<Longrightarrow> action_pattern s"
  unfolding action_pattern_def by blast

lemma re_search_iff: "(\<exists>r. re_search s = Some r) \<longleftrightarrow> action_pattern s"
proof
  assume "\<exists>r. re_search s = Some r"
  then obtain g1 g2 where "re_search s = Some (g1, g2)" by force
  from re_search_Some[OF this] obtain pre lb rb nls rest where
    "s = pre @ ''Action: '' @ lb @ g1 @ rb @ nls @ ''Action Input:'' @ rest" by blast
  then have "s = pre @ ''Action: '' @ (lb @ g1 @ rb @ nls) @ ''Action Input:'' @ rest" by simp
  then show "action_pattern s" by (rule action_patternI)
next
  assume "action_pattern s"
  then show "\<exists>r. re_search s = Some r" unfolding action_pattern_def using re_search_finds by blast
qed

lemma action_pattern_grammar: "action_pattern s \<Longrightarrow> action_grammar s"
proof -
  assume "action_pattern s"
  then obtain u v w where "s = u @ ''Action: '' @ v @ ''Action Input:'' @ w"
    unfolding action_pattern_def by blast
  then have "s = u @ ''Action:'' @ ('' '' @ v) @ ''Action Input:'' @ w" by simp
  then show ?thesis by (rule action_grammarI)
qed

lemma trim_ends:
  assumes "r = rev (dropWhile P (rev (dropWhile P s)))" "r \<noteq> []"
  shows "\<not> P (hd r) \<and> \<not> P (last r)"
proof -
  define a where "a = dropWhile P s"
  define b where "b = dropWhile P (rev a)"
  from assms have r: "r = rev b" "b \<noteq> []" by (auto simp: a_def b_def)
  from r(2) have "\<not> P (hd b)" unfolding b_def by (rule hd_dropWhile)
  with r have 1: "\<not> P (last r)" by (simp add: last_rev)
  from r(2) have "rev a \<noteq> []" unfolding b_def by auto
  then have ane: "a \<noteq> []" by simp
  then have "\<not> P (hd a)" unfolding a_def by (rule hd_dropWhile)
  moreover have "last b = last (rev a)"
  proof -
    have "rev a = takeWhile P (rev a) @ b" by (simp add: b_def)
    with r(2) show ?thesis by (metis last_appendR)
  qed
  ultimately have "\<not> P (hd r)" using r ane by (simp add: hd_rev last_rev)
  with 1 show ?thesis by simp
qed

lemma m_name_min:
  "m_name acc s = Some (g1, g2) \<Longrightarrow>
     \<exists>k rest. s = k @ rest \<and> g1 = rev acc @ k \<and> m_close rest = Some g2
       \<and> (\<forall>k1 k2. k = k1 @ k2 \<and> k2 \<noteq> [] \<longrightarrow> m_close (k2 @ rest) = None)"
proof (induction s arbitrary: acc)
  case Nil
  then have a: "m_close [] = Some g2" and b: "g1 = rev acc @ []" by (auto split: option.splits)
  have c: "\<forall>k1 k2. [] = k1 @ k2 \<and> k2 \<noteq> [] \<longrightarrow> m_close (k2 @ []) = None" by simp
  show ?case
    by (rule exI[of _ "[]"], rule exI[of _ "[]"]) (use a b c in blast)
next
  case (Cons c cs)
  show ?case
  proof (cases "m_close (c # cs)")
    case (Some g)
    with Cons.prems have b: "g1 = rev acc @ []" and "g = g2" by auto
    with Some have a: "m_close (c # cs) = Some g2" by simp
    have d: "\<forall>k1 k2. [] = k1 @ k2 \<and> k2 \<noteq> [] \<longrightarrow> m_close (k2 @ (c # cs)) = None" by simp
    have e: "c # cs = [] @ (c # cs)" by simp
    show ?thesis
      by (rule exI[of _ "[]"], rule exI[of _ "c # cs"]) (use a b d e in blast)
  next
    case None
    with Cons.prems have "m_name (c # acc) cs = Some (g1, g2)" by simp
    from Cons.IH[OF this] obtain k rest where k: "cs = k @ rest" "g1 = rev (c # acc) @ k"
      "m_close rest = Some g2"
      "\<forall>k1 k2. k = k1 @ k2 \<and> k2 \<noteq> [] \<longrightarrow> m_close (k2 @ rest) = None"
      by blast
    have m: "\<forall>k1 k2. c # k = k1 @ k2 \<and> k2 \<noteq> [] \<longrightarrow> m_close (k2 @ rest) = None"
    proof (intro allI impI)
      fix k1 k2 assume h: "c # k = k1 @ k2 \<and> k2 \<noteq> []"
      show "m_close (k2 @ rest) = None"
      proof (cases k1)
        case Nil
        with h have "k2 = c # k" by simp
        with k(1) have "k2 @ rest = c # cs" by simp
        with None show ?thesis by (simp only:)
      next
        case (Cons a k1')
        with h have "k = k1' @ k2 \<and> k2 \<noteq> []" by simp
        with k(4) show ?thesis by blast
      qed
    qed
    have e: "c # cs = (c # k) @ rest" using k(1) by simp
    have b: "g1 = rev acc @ (c # k)" using k(2) by simp
    show ?thesis
      by (rule exI[of _ "c # k"], rule exI[of _ rest]) (use e b k(3) m in blast)
  qed
qed


lemma m_name_None_acc: "m_name acc s = None \<Longrightarrow> m_name acc' s = None"
  by (induction s arbitrary: acc acc') (auto split: option.splits)


lemma m_newlines_at:
  "set nls \<subseteq> {CHR 0x0A} \<Longrightarrow> m_newlines (nls @ ''Action Input:'' @ rst) = Some (dropWhile isspace rst)"
proof -
  assume "set nls \<subseteq> {CHR 0x0A}"
  then have "dropWhile (\<lambda>c. c = CHR 0x0A) (nls @ ''Action Input:'' @ rst) = ''Action Input:'' @ rst"
    by (induction nls) auto
  then show ?thesis by (simp add: m_newlines_eq m_input_def)
qed

lemma m_close_bracket: "m_close (CHR '']'' # t) = m_newlines t"
  by (simp add: m_close_eq)

lemma m_close_newline: "m_close (CHR 0x0A # t) = m_newlines (CHR 0x0A # t)"
  by (simp add: m_close_eq)

lemma m_close_bracket_at:
  "set nls \<subseteq> {CHR 0x0A} \<Longrightarrow>
     m_close (CHR '']'' # nls @ ''Action Input:'' @ rst) = Some (dropWhile isspace rst)"
  unfolding m_close_bracket by (rule m_newlines_at)

lemma m_close_newlines_at:
  assumes "set nls \<subseteq> {CHR 0x0A}"
  shows "m_close (CHR 0x0A # nls @ ''Action Input:'' @ rst) = Some (dropWhile isspace rst)"
proof -
  from assms have "set (CHR 0x0A # nls) \<subseteq> {CHR 0x0A}" by simp
  from m_newlines_at[OF this, of rst] show ?thesis
    unfolding m_close_newline by (simp only: append_Cons)
qed

lemma head_in_front: "xs @ t = c # u \<Longrightarrow> xs \<noteq> [] \<Longrightarrow> c \<in> set xs"
  by (cases xs) auto

lemma m_name_shape:
  assumes "m_name [] s = Some (g1, g2)"
  shows "\<exists>rb nls rest. s = g1 @ rb @ nls @ ''Action Input:'' @ rest
           \<and> (rb = '']'' \<or> rb = [] \<and> \<not> suffix '']'' g1)
           \<and> set nls \<subseteq> {CHR 0x0A} \<and> \<not> suffix [CHR 0x0A] (g1 @ rb)
           \<and> g2 = dropWhile isspace rest
           \<and> (\<forall>x y. s = x @ ''Action Input:'' @ y \<longrightarrow> length (g1 @ rb @ nls) \<le> length x)"
proof -
  from m_name_min[OF assms] obtain rest0 where
    s: "s = g1 @ rest0" and c: "m_close rest0 = Some g2"
    and mn: "\<forall>k1 k2. g1 = k1 @ k2 \<and> k2 \<noteq> [] \<longrightarrow> m_close (k2 @ rest0) = None"
    by auto
  from m_close_Some[OF c] obtain rb nls rest where
    r: "rest0 = rb @ nls @ ''Action Input:'' @ rest" "rb = [] \<or> rb = '']''"
       "set nls \<subseteq> {CHR 0x0A}" "g2 = dropWhile isspace rest" by blast
  have a: "\<not> suffix '']'' g1" if "rb = []"
  proof
    assume "suffix '']'' g1"
    then obtain z where "g1 = z @ '']''" by (auto simp: suffix_def)
    with mn have "m_close ('']'' @ rest0) = None" by blast
    moreover from r(1) that have "'']'' @ rest0 = CHR '']'' # nls @ ''Action Input:'' @ rest"
      by simp
    ultimately have "m_close (CHR '']'' # nls @ ''Action Input:'' @ rest) = None" by (simp only:)
    with m_close_bracket_at[OF r(3), of rest] show False by (simp only:) simp
  qed
  have b: "\<not> suffix [CHR 0x0A] (g1 @ rb)"
  proof
    assume sf: "suffix [CHR 0x0A] (g1 @ rb)"
    show False
    proof (cases "rb = []")
      case True
      with sf obtain z where "g1 = z @ [CHR 0x0A]" by (auto simp: suffix_def)
      with mn have "m_close ([CHR 0x0A] @ rest0) = None" by blast
      moreover from r(1) True
      have "[CHR 0x0A] @ rest0 = CHR 0x0A # nls @ ''Action Input:'' @ rest" by simp
      ultimately have "m_close (CHR 0x0A # nls @ ''Action Input:'' @ rest) = None"
        by (simp only:)
      with m_close_newlines_at[OF r(3), of rest] show False by (simp only:) simp
    next
      case False
      with r(2) have "rb = '']''" by simp
      with sf show False by (auto simp: suffix_def)
    qed
  qed
  have f: "length (g1 @ rb @ nls) \<le> length x" if h: "s = x @ ''Action Input:'' @ y" for x y
  proof (rule ccontr)
    assume "\<not> length (g1 @ rb @ nls) \<le> length x"
    then have lt: "length x < length (g1 @ rb @ nls)" by simp
    from h s r(1) have eq: "g1 @ (rb @ nls @ ''Action Input:'' @ rest) = x @ ''Action Input:'' @ y"
      by simp
    then show False
    proof (cases rule: append_eq_cases)
      case (1 z)
      show ?thesis
      proof (cases z)
        case Nil
        with 1 have "(rb @ nls) @ ''Action Input:'' @ rest = CHR ''A'' # ''ction Input:'' @ y"
          by simp
        moreover from lt 1 Nil have "rb @ nls \<noteq> []" by auto
        ultimately have "CHR ''A'' \<in> set (rb @ nls)" by (rule head_in_front)
        with r(2,3) show False by auto
      next
        case (Cons a z')
        then have "z \<noteq> []" by simp
        with 1(1) mn have "m_close (z @ rest0) = None" by blast
        moreover from 1 r(1) have "z @ rest0 = ''Action Input:'' @ y" by simp
        ultimately show False using m_close_at_label[of y] by simp
      qed
    next
      case (2 z)
      from 2(1) lt have lz: "length z < length (rb @ nls)" by auto
      from 2(2) have "(rb @ nls) @ ''Action Input:'' @ rest = z @ ''Action Input:'' @ y" by simp
      then show False
      proof (cases rule: append_eq_cases)
        case (1 z2)
        with lz have ne: "z2 \<noteq> []" by auto
        from 1(2) have "z2 @ ''Action Input:'' @ rest = CHR ''A'' # ''ction Input:'' @ y" by simp
        from head_in_front[OF this ne] have "CHR ''A'' \<in> set z2" .
        with 1(1) have "CHR ''A'' \<in> set (rb @ nls)" by (metis Un_iff set_append)
        then show False using r(2,3) by auto
      next
        case (2 z2)
        with lz show False by auto
      qed
    qed
  qed
  from r(2) a have br: "rb = '']'' \<or> rb = [] \<and> \<not> suffix '']'' g1" by blast
  from s r(1) have s': "s = g1 @ rb @ nls @ ''Action Input:'' @ rest" by (simp only:)
  from f have f': "\<forall>x y. s = x @ ''Action Input:'' @ y \<longrightarrow> length (g1 @ rb @ nls) \<le> length x"
    by blast
  show ?thesis
    by (rule exI[of _ rb], rule exI[of _ nls], rule exI[of _ rest])
       (intro conjI s' br r(3) b r(4) f')
qed

lemma m_close_open_bracket: "m_close (CHR ''['' # cs) = None"
  by (simp add: m_close_eq m_input_def)

lemma m_open_shape:
  assumes "m_open s = Some (g1, g2)"
  shows "\<exists>lb t. s = lb @ t \<and> (lb = ''['' \<or> lb = [] \<and> \<not> prefix ''['' s)
           \<and> m_name [] t = Some (g1, g2)"
proof (cases s)
  case Nil
  with assms have "m_name [] [] = Some (g1, g2)" by (simp add: m_open_def)
  with Nil have "s = [] @ [] \<and> ([] = ''['' \<or> [] = [] \<and> \<not> prefix ''['' s)
           \<and> m_name [] [] = Some (g1, g2)" by simp
  then show ?thesis by blast
next
  case (Cons c cs)
  show ?thesis
  proof (cases "c = CHR ''[''")
    case True
    have "m_name [] cs = Some (g1, g2)"
    proof (cases "m_name [] cs")
      case None
      then have "m_name [CHR ''[''] cs = None" by (rule m_name_None_acc)
      then have "m_name [] (CHR ''['' # cs) = None" by (simp add: m_close_open_bracket)
      with assms Cons True None show ?thesis by (simp add: m_open_def)
    next
      case (Some r)
      with assms Cons True show ?thesis by (simp add: m_open_def)
    qed
    with Cons True have "s = ''['' @ cs \<and> (''['' = ''['' \<or> ''['' = [] \<and> \<not> prefix ''['' s)
           \<and> m_name [] cs = Some (g1, g2)" by simp
    then show ?thesis by blast
  next
    case False
    with assms Cons have "m_name [] s = Some (g1, g2)" by (simp add: m_open_def)
    with Cons False have "s = [] @ s \<and> ([] = ''['' \<or> [] = [] \<and> \<not> prefix ''['' s)
           \<and> m_name [] s = Some (g1, g2)" by simp
    then show ?thesis by blast
  qed
qed

lemma re_search_leftmost:
  "re_search s = Some r \<Longrightarrow>
     \<exists>pre t. s = pre @ t \<and> m_action t = Some r
       \<and> (\<forall>p1 p2. pre = p1 @ p2 \<and> p2 \<noteq> [] \<longrightarrow> m_action (p2 @ t) = None)"
proof (induction s)
  case Nil
  then have a: "m_action [] = Some r" by simp
  have c: "\<forall>p1 p2. [] = p1 @ p2 \<and> p2 \<noteq> [] \<longrightarrow> m_action (p2 @ []) = None" by simp
  have e: "[] = [] @ []" by simp
  show ?case
    by (rule exI[of _ "[]"], rule exI[of _ "[]"]) (use a c e in blast)
next
  case (Cons c cs)
  show ?case
  proof (cases "m_action (c # cs)")
    case (Some r')
    with Cons.prems have a: "m_action (c # cs) = Some r" by simp
    have d: "\<forall>p1 p2. [] = p1 @ p2 \<and> p2 \<noteq> [] \<longrightarrow> m_action (p2 @ (c # cs)) = None" by simp
    have e: "c # cs = [] @ (c # cs)" by simp
    show ?thesis
      by (rule exI[of _ "[]"], rule exI[of _ "c # cs"]) (use a d e in blast)
  next
    case None
    with Cons.prems have "re_search cs = Some r" by simp
    from Cons.IH[OF this] obtain pre t where k: "cs = pre @ t" "m_action t = Some r"
      "\<forall>p1 p2. pre = p1 @ p2 \<and> p2 \<noteq> [] \<longrightarrow> m_action (p2 @ t) = None"
      by blast
    have m: "\<forall>p1 p2. c # pre = p1 @ p2 \<and> p2 \<noteq> [] \<longrightarrow> m_action (p2 @ t) = None"
    proof (intro allI impI)
      fix p1 p2 assume h: "c # pre = p1 @ p2 \<and> p2 \<noteq> []"
      show "m_action (p2 @ t) = None"
      proof (cases p1)
        case Nil
        with h have "p2 = c # pre" by simp
        with k(1) have "p2 @ t = c # cs" by simp
        with None show ?thesis by (simp only:)
      next
        case (Cons a p1')
        with h have "pre = p1' @ p2 \<and> p2 \<noteq> []" by simp
        with k(3) show ?thesis by blast
      qed
    qed
    have e: "c # cs = (c # pre) @ t" using k(1) by simp
    show ?thesis
      by (rule exI[of _ "c # pre"], rule exI[of _ t]) (use e k(2) m in blast)
  qed
qed

lemma skip_label:
  assumes "z @ a @ m = a @ y"
  shows "\<exists>v. y = v @ m"
proof -
  have "y = drop (length a) (a @ y)" by simp
  also have "\<dots> = drop (length a) ((z @ a) @ m)" using assms by simp
  also have "\<dots> = drop (length a) (z @ a) @ m" by simp
  finally show ?thesis by blast
qed

lemma m_action_label: "m_action (''Action: '' @ y) = m_open y"
  by (simp add: m_action_def)

lemma re_search_shape:
  assumes "re_search s = Some (g1, g2)"
  shows "\<exists>pre lb rb nls rest.
      s = pre @ ''Action: '' @ lb @ g1 @ rb @ nls @ ''Action Input:'' @ rest
    \<and> (\<forall>x y. s = x @ ''Action: '' @ y \<longrightarrow> length pre \<le> length x)
    \<and> (\<forall>x y. g1 @ rb @ nls @ ''Action Input:'' @ rest = x @ ''Action Input:'' @ y
            \<longrightarrow> length (g1 @ rb @ nls) \<le> length x)
    \<and> (lb = ''['' \<or> lb = [] \<and> \<not> prefix ''['' g1)
    \<and> (rb = '']'' \<or> rb = [] \<and> \<not> suffix '']'' g1)
    \<and> set nls \<subseteq> {CHR 0x0A} \<and> \<not> suffix [CHR 0x0A] (g1 @ rb)
    \<and> g2 = dropWhile isspace rest"
proof -
  from re_search_leftmost[OF assms] obtain pre t where
    s: "s = pre @ t" and ma: "m_action t = Some (g1, g2)"
    and mn: "\<forall>p1 p2. pre = p1 @ p2 \<and> p2 \<noteq> [] \<longrightarrow> m_action (p2 @ t) = None"
    by blast
  from ma obtain t1 where t: "t = ''Action: '' @ t1" and mo: "m_open t1 = Some (g1, g2)"
    by (auto simp: m_action_def prefix_def split: if_splits)
  from m_open_shape[OF mo] obtain lb t2 where
    t1: "t1 = lb @ t2" and lb: "lb = ''['' \<or> lb = [] \<and> \<not> prefix ''['' t1"
    and mm: "m_name [] t2 = Some (g1, g2)" by blast
  from m_name_shape[OF mm] obtain rb nls rest where
    t2: "t2 = g1 @ rb @ nls @ ''Action Input:'' @ rest"
    and rb: "rb = '']'' \<or> rb = [] \<and> \<not> suffix '']'' g1"
    and nls: "set nls \<subseteq> {CHR 0x0A}" and nl: "\<not> suffix [CHR 0x0A] (g1 @ rb)"
    and g2: "g2 = dropWhile isspace rest"
    and fi: "\<forall>x y. t2 = x @ ''Action Input:'' @ y \<longrightarrow> length (g1 @ rb @ nls) \<le> length x"
    by blast
  have shape: "s = pre @ ''Action: '' @ lb @ g1 @ rb @ nls @ ''Action Input:'' @ rest"
    unfolding s t t1 t2 by (rule refl)
  have lb': "lb = ''['' \<or> lb = [] \<and> \<not> prefix ''['' g1"
  proof (cases "lb = ''[''")
    case True
    then show ?thesis by (rule disjI1)
  next
    case False
    with lb have e: "lb = []" and np: "\<not> prefix ''['' t1" by blast+
    have "\<not> prefix ''['' g1"
    proof
      assume "prefix ''['' g1"
      then have pf: "prefix ''['' (g1 @ rb @ nls @ ''Action Input:'' @ rest)"
        by (rule prefix_prefix)
      from t1 e have "t1 = t2" by simp
      then have "t1 = g1 @ rb @ nls @ ''Action Input:'' @ rest" using t2 by (rule trans)
      then have "prefix ''['' t1" using pf by (simp only:)
      with np show False by (rule notE)
    qed
    with e show ?thesis by blast
  qed
  have fi': "\<forall>x y. g1 @ rb @ nls @ ''Action Input:'' @ rest = x @ ''Action Input:'' @ y
            \<longrightarrow> length (g1 @ rb @ nls) \<le> length x"
    using fi unfolding t2 .
  have first: "\<forall>x y. s = x @ ''Action: '' @ y \<longrightarrow> length pre \<le> length x"
  proof (intro allI impI)
    fix x y assume h: "s = x @ ''Action: '' @ y"
    show "length pre \<le> length x"
    proof (rule ccontr)
      assume "\<not> length pre \<le> length x"
      then have lt: "length x < length pre" by simp
      from h s have "pre @ t = x @ (''Action: '' @ y)" by (simp only:)
      then show False
      proof (cases rule: append_eq_cases)
        case (1 z)
        from 1(1) lt have zne: "z \<noteq> []" by auto
        with 1(1) mn have "m_action (z @ t) = None" by blast
        with 1(2) have "m_action (''Action: '' @ y) = None" by (simp only:)
        then have none: "m_open y = None" by (simp only: m_action_label)
        from 1(2) have "z @ ''Action: '' @ (lb @ g1 @ rb @ nls @ ''Action Input:'' @ rest)
            = ''Action: '' @ y"
          unfolding t t1 t2 .
        from skip_label[OF this] obtain v where
          "y = v @ lb @ g1 @ rb @ nls @ ''Action Input:'' @ rest" by blast
        then have "y = (v @ lb @ g1 @ rb @ nls) @ ''Action Input:'' @ rest"
          by (simp only: append_assoc)
        with m_open_finds[of "v @ lb @ g1 @ rb @ nls" rest] none show False by (simp only:) simp
      next
        case (2 z)
        from 2(1) lt show False by auto
      qed
    qed
  qed
  show ?thesis
    by (rule exI[of _ pre], rule exI[of _ lb], rule exI[of _ rb], rule exI[of _ nls],
        rule exI[of _ rest])
       (intro conjI shape first fi' lb' rb nls nl g2)
qed

lemma run_split_unique:
  assumes "u @ n = u' @ n'" and "set n \<subseteq> {c}" and "set n' \<subseteq> {c}"
    and "\<not> suffix [c] u" and "\<not> suffix [c] u'"
  shows "u = u' \<and> n = n'"
  using assms(1)
proof (cases rule: append_eq_cases)
  case (1 z)
  show ?thesis
  proof (cases z rule: rev_cases)
    case Nil
    with 1 show ?thesis by simp
  next
    case (snoc z' b)
    with 1(2) assms(3) have "b = c" by auto
    with snoc 1(1) have "suffix [c] u" by (simp add: suffix_def)
    with assms(4) show ?thesis by simp
  qed
next
  case (2 z)
  show ?thesis
  proof (cases z rule: rev_cases)
    case Nil
    with 2 show ?thesis by simp
  next
    case (snoc z' b)
    with 2(2) assms(2) have "b = c" by auto
    with snoc 2(1) have "suffix [c] u'" by (auto simp: suffix_def)
    with assms(5) show ?thesis by simp
  qed
qed

lemma no_open_bracket_in_front:
  assumes "\<not> prefix ''['' g1" and "rb = '']'' \<or> rb = []" and "set nls \<subseteq> {CHR 0x0A}"
    and "a \<noteq> CHR ''[''"
  shows "\<not> prefix ''['' (g1 @ rb @ nls @ (a # ai) @ rest)"
proof (cases g1)
  case (Cons c g)
  with assms(1) show ?thesis by simp
next
  case Nil
  show ?thesis
  proof (cases rb)
    case (Cons c r)
    with assms(2) Nil show ?thesis by auto
  next
    case rbn: Nil
    show ?thesis using Nil rbn assms(3,4) by (cases nls) auto
  qed
qed

lemma shape_unique:
  assumes AI: "AI = a # ai" "a \<noteq> CHR ''[''"
    and D: "s = pre @ AC @ lb @ g1 @ rb @ nls @ AI @ rest"
    and D': "s = pre' @ AC @ lb' @ g1' @ rb' @ nls' @ AI @ rest'"
    and F: "\<forall>x y. s = x @ AC @ y \<longrightarrow> length pre \<le> length x"
    and F': "\<forall>x y. s = x @ AC @ y \<longrightarrow> length pre' \<le> length x"
    and G: "\<forall>x y. g1 @ rb @ nls @ AI @ rest = x @ AI @ y \<longrightarrow> length (g1 @ rb @ nls) \<le> length x"
    and G': "\<forall>x y. g1' @ rb' @ nls' @ AI @ rest' = x @ AI @ y
               \<longrightarrow> length (g1' @ rb' @ nls') \<le> length x"
    and L: "lb = ''['' \<or> lb = [] \<and> \<not> prefix ''['' g1"
    and L': "lb' = ''['' \<or> lb' = [] \<and> \<not> prefix ''['' g1'"
    and R: "rb = '']'' \<or> rb = [] \<and> \<not> suffix '']'' g1"
    and R': "rb' = '']'' \<or> rb' = [] \<and> \<not> suffix '']'' g1'"
    and N: "set nls \<subseteq> {CHR 0x0A}" "\<not> suffix [CHR 0x0A] (g1 @ rb)"
    and N': "set nls' \<subseteq> {CHR 0x0A}" "\<not> suffix [CHR 0x0A] (g1' @ rb')"
  shows "g1 = g1' \<and> rest = rest'"
proof -
  define t where "t = g1 @ rb @ nls @ AI @ rest"
  define t' where "t' = g1' @ rb' @ nls' @ AI @ rest'"
  from D have Dt: "s = pre @ AC @ lb @ t" by (simp add: t_def)
  from D' have Dt': "s = pre' @ AC @ lb' @ t'" by (simp add: t'_def)
  from F Dt' have "length pre \<le> length pre'" by blast
  moreover from F' Dt have "length pre' \<le> length pre" by blast
  ultimately have "length pre = length pre'" by simp
  with Dt Dt' have "AC @ lb @ t = AC @ lb' @ t'" by simp
  then have lt: "lb @ t = lb' @ t'" by simp
  from R have Rw: "rb = '']'' \<or> rb = []" by blast
  from R' have Rw': "rb' = '']'' \<or> rb' = []" by blast
  have no: "\<not> prefix ''['' t" if "\<not> prefix ''['' g1"
    unfolding t_def AI(1) by (rule no_open_bracket_in_front[OF that Rw N(1) AI(2)])
  have no': "\<not> prefix ''['' t'" if "\<not> prefix ''['' g1'"
    unfolding t'_def AI(1) by (rule no_open_bracket_in_front[OF that Rw' N'(1) AI(2)])
  have tt: "t = t'"
  proof -
    from L L' consider "lb = ''[''" "lb' = ''[''" | "lb = []" "lb' = []"
      | "lb = ''[''" "lb' = []" "\<not> prefix ''['' g1'"
      | "lb = []" "lb' = ''[''" "\<not> prefix ''['' g1" by blast
    then show ?thesis
    proof cases
      case 1
      with lt show ?thesis by simp
    next
      case 2
      with lt show ?thesis by simp
    next
      case 3
      with lt have "t' = ''['' @ t" by simp
      then have "prefix ''['' t'" by (rule prefixI)
      with no'[OF 3(3)] show ?thesis by simp
    next
      case 4
      with lt have "t = ''['' @ t'" by simp
      then have "prefix ''['' t" by (rule prefixI)
      with no[OF 4(3)] show ?thesis by simp
    qed
  qed
  have e1: "g1 @ rb @ nls @ AI @ rest = (g1' @ rb' @ nls') @ AI @ rest'"
    using tt by (simp add: t_def t'_def)
  have e2: "g1' @ rb' @ nls' @ AI @ rest' = (g1 @ rb @ nls) @ AI @ rest"
    using tt by (simp add: t_def t'_def)
  from G e1 have "length (g1 @ rb @ nls) \<le> length (g1' @ rb' @ nls')" by blast
  moreover from G' e2 have "length (g1' @ rb' @ nls') \<le> length (g1 @ rb @ nls)" by blast
  ultimately have len: "length (g1 @ rb @ nls) = length (g1' @ rb' @ nls')" by simp
  from e1 have e3: "(g1 @ rb @ nls) @ AI @ rest = (g1' @ rb' @ nls') @ AI @ rest'" by simp
  from append_eq_append_conv[OF disjI1[OF len], of "AI @ rest" "AI @ rest'"] e3
  have w: "g1 @ rb @ nls = g1' @ rb' @ nls'" and ar: "AI @ rest = AI @ rest'" by blast+
  from ar have rest: "rest = rest'" by simp
  from w have "(g1 @ rb) @ nls = (g1' @ rb') @ nls'" by simp
  from run_split_unique[OF this N(1) N'(1) N(2) N'(2)] have gr: "g1 @ rb = g1' @ rb'" by blast
  have "g1 = g1'"
  proof -
    from R R' consider "rb = '']''" "rb' = '']''" | "rb = []" "rb' = []"
      | "rb = '']''" "rb' = []" "\<not> suffix '']'' g1'"
      | "rb = []" "rb' = '']''" "\<not> suffix '']'' g1" by blast
    then show ?thesis
    proof cases
      case 1
      with gr show ?thesis by simp
    next
      case 2
      with gr show ?thesis by simp
    next
      case 3
      with gr have "suffix '']'' g1'" by (auto simp: suffix_def)
      with 3(3) show ?thesis by simp
    next
      case 4
      with gr have "suffix '']'' g1" by (auto simp: suffix_def)
      with 4(3) show ?thesis by simp
    qed
  qed
  with rest show ?thesis by simp
qed

lemma action_shape_determines:
  assumes D: "s = pre @ ''Action: '' @ lb @ g1 @ rb @ nls @ ''Action Input:'' @ rest"
    and F: "\<forall>x y. s = x @ ''Action: '' @ y \<longrightarrow> length pre \<le> length x"
    and G: "\<forall>x y. g1 @ rb @ nls @ ''Action Input:'' @ rest = x @ ''Action Input:'' @ y
               \<longrightarrow> length (g1 @ rb @ nls) \<le> length x"
    and L: "lb = ''['' \<or> lb = [] \<and> \<not> prefix ''['' g1"
    and R: "rb = '']'' \<or> rb = [] \<and> \<not> suffix '']'' g1"
    and N: "set nls \<subseteq> {CHR 0x0A}" "\<not> suffix [CHR 0x0A] (g1 @ rb)"
  shows "re_search s = Some (g1, dropWhile isspace rest)"
proof -
  from D have "s = pre @ ''Action: '' @ (lb @ g1 @ rb @ nls) @ ''Action Input:'' @ rest"
    by (simp only: append_assoc)
  with re_search_finds[of pre "lb @ g1 @ rb @ nls" rest]
  obtain r where "re_search s = Some r" by (simp only:) blast
  then obtain g1' g2' where rs: "re_search s = Some (g1', g2')" by (cases r) simp
  from re_search_shape[OF rs] obtain pre' lb' rb' nls' rest' where
    D': "s = pre' @ ''Action: '' @ lb' @ g1' @ rb' @ nls' @ ''Action Input:'' @ rest'"
    and F': "\<forall>x y. s = x @ ''Action: '' @ y \<longrightarrow> length pre' \<le> length x"
    and G': "\<forall>x y. g1' @ rb' @ nls' @ ''Action Input:'' @ rest' = x @ ''Action Input:'' @ y
               \<longrightarrow> length (g1' @ rb' @ nls') \<le> length x"
    and L': "lb' = ''['' \<or> lb' = [] \<and> \<not> prefix ''['' g1'"
    and R': "rb' = '']'' \<or> rb' = [] \<and> \<not> suffix '']'' g1'"
    and N': "set nls' \<subseteq> {CHR 0x0A}" "\<not> suffix [CHR 0x0A] (g1' @ rb')"
    and g2': "g2' = dropWhile isspace rest'"
    by blast
  have AI: "''Action Input:'' = CHR ''A'' # ''ction Input:''" "CHR ''A'' \<noteq> CHR ''[''" by simp_all
  from shape_unique[OF AI D D' F F' G G' L L' R R' N N']
  have "g1 = g1'" "rest = rest'" by blast+
  with rs g2' show ?thesis by (simp only:)
qed

text \<open>
  Claim C1, as stated, fails in two ways. The text \<open>Action: Final Answer\nAction Input: maybe\<close>
  holds no final-answer marker and is in the action grammar, and the parser returns for
  it the pair that it returns for \<open>Final Answer: maybe\<close>, which \<open>run\<close> reads as a final
  answer, not as a call of a tool. The text \<open>Action:Search\nAction Input: cats\<close> holds
  no marker and is in the action grammar as the claim words it, and the parser fails
  on it: the pattern of the code wants a space behind \<open>Action:\<close>.
\<close>

theorem parser_three_outcomes_counterexample:
  "\<not> contains FINAL_ANSWER_TOKEN (''Action: Final Answer'' @ [CHR 0x0A] @ ''Action Input: maybe'')
   \<and> action_grammar (''Action: Final Answer'' @ [CHR 0x0A] @ ''Action Input: maybe'')
   \<and> get_tool_and_input (''Action: Final Answer'' @ [CHR 0x0A] @ ''Action Input: maybe'')
       = Inr (''Final Answer'', ''maybe'')
   \<and> get_tool_and_input ''Final Answer: maybe'' = Inr (''Final Answer'', ''maybe'')
   \<and> \<not> contains FINAL_ANSWER_TOKEN (''Action:Search'' @ [CHR 0x0A] @ ''Action Input: cats'')
   \<and> action_grammar (''Action:Search'' @ [CHR 0x0A] @ ''Action Input: cats'')
   \<and> get_tool_and_input (''Action:Search'' @ [CHR 0x0A] @ ''Action Input: cats'')
       = Inl (ValueError (''Output of LLM is not parsable for next tool use: `''
                @ ''Action:Search'' @ [CHR 0x0A] @ ''Action Input: cats'' @ ''`''))"
proof -
  have 1: "\<not> contains FINAL_ANSWER_TOKEN (''Action: Final Answer'' @ [CHR 0x0A] @ ''Action Input: maybe'')"
    by code_simp
  have 2: "action_grammar (''Action: Final Answer'' @ [CHR 0x0A] @ ''Action Input: maybe'')"
    by (rule action_grammarI[of _ "[]" "'' Final Answer'' @ [CHR 0x0A]" "'' maybe''"]) simp
  have 3: "get_tool_and_input (''Action: Final Answer'' @ [CHR 0x0A] @ ''Action Input: maybe'')
       = Inr (''Final Answer'', ''maybe'')" by code_simp
  have 4: "get_tool_and_input ''Final Answer: maybe'' = Inr (''Final Answer'', ''maybe'')"
    by code_simp
  have 5: "\<not> contains FINAL_ANSWER_TOKEN (''Action:Search'' @ [CHR 0x0A] @ ''Action Input: cats'')"
    by code_simp
  have 6: "action_grammar (''Action:Search'' @ [CHR 0x0A] @ ''Action Input: cats'')"
    by (rule action_grammarI[of _ "[]" "''Search'' @ [CHR 0x0A]" "'' cats''"]) simp
  have 7: "get_tool_and_input (''Action:Search'' @ [CHR 0x0A] @ ''Action Input: cats'')
       = Inl (ValueError (''Output of LLM is not parsable for next tool use: `''
                @ ''Action:Search'' @ [CHR 0x0A] @ ''Action Input: cats'' @ ''`''))"
    by code_simp
  show ?thesis by (intro conjI 1 2 3 4 5 6 7)
qed

text \<open>
  Claim C1, amended. The parser always returns, in one of three ways whose conditions
  exclude one another. With the marker in the text it returns a final answer. Without
  the marker and with the text of the shape \<open>u Action:  v Action Input: w\<close>, the label
  \<open>Action:\<close> with one space behind it, it returns the pair of tool name and tool input
  that the two groups of the regular expression give; that pair is a call of a tool
  unless the tool name is exactly \<open>Final Answer\<close>, and then it is a final answer.
  Otherwise it fails with a \<open>ValueError\<close> whose message holds the whole text. Every
  text of that shape is in the action grammar as the specification words it.
\<close>

theorem parser_three_outcomes:
  "(contains FINAL_ANSWER_TOKEN generated \<longrightarrow>
      (\<exists>answer. get_tool_and_input generated = Inr (''Final Answer'', answer)
         \<and> is_final_answer (''Final Answer'', answer)))
   \<and> (\<not> contains FINAL_ANSWER_TOKEN generated \<and> action_pattern generated \<longrightarrow>
      (\<exists>g1 g2. re_search generated = Some (g1, g2) \<and>
         get_tool_and_input generated
           = Inr (strip g1, strip_chars [CHR 0x22] (strip_chars '' '' g2))
         \<and> (is_final_answer (strip g1, strip_chars [CHR 0x22] (strip_chars '' '' g2))
              \<longleftrightarrow> strip g1 = ''Final Answer'')))
   \<and> (\<not> contains FINAL_ANSWER_TOKEN generated \<and> \<not> action_pattern generated \<longrightarrow>
      get_tool_and_input generated
        = Inl (ValueError
            (''Output of LLM is not parsable for next tool use: `'' @ generated @ ''`'')))
   \<and> (action_pattern generated \<longrightarrow> action_grammar generated)"
proof -
  have a: "\<exists>answer. get_tool_and_input generated = Inr (''Final Answer'', answer)
         \<and> is_final_answer (''Final Answer'', answer)"
    if "contains FINAL_ANSWER_TOKEN generated"
    using that by (simp add: get_tool_and_input_def is_final_answer_def)
  have b: "\<exists>g1 g2. re_search generated = Some (g1, g2) \<and>
         get_tool_and_input generated
           = Inr (strip g1, strip_chars [CHR 0x22] (strip_chars '' '' g2))
         \<and> (is_final_answer (strip g1, strip_chars [CHR 0x22] (strip_chars '' '' g2))
              \<longleftrightarrow> strip g1 = ''Final Answer'')"
    if h: "\<not> contains FINAL_ANSWER_TOKEN generated \<and> action_pattern generated"
  proof -
    from h obtain g1 g2 where "re_search generated = Some (g1, g2)"
      using re_search_iff[of generated] by force
    with h show ?thesis by (simp add: get_tool_and_input_def is_final_answer_def)
  qed
  have c: "get_tool_and_input generated
        = Inl (ValueError
            (''Output of LLM is not parsable for next tool use: `'' @ generated @ ''`''))"
    if h: "\<not> contains FINAL_ANSWER_TOKEN generated \<and> \<not> action_pattern generated"
  proof -
    from h have "re_search generated = None"
      using re_search_iff[of generated] by (cases "re_search generated") auto
    with h show ?thesis by (simp add: get_tool_and_input_def)
  qed
  from a b c action_pattern_grammar[of generated] show ?thesis by blast
qed

theorem parser_three_outcomes_witness:
  "(\<exists>answer. get_tool_and_input ''I know it. Final Answer: 42'' = Inr (''Final Answer'', answer)
       \<and> is_final_answer (''Final Answer'', answer))
   \<and> get_tool_and_input (''Action: Search'' @ [CHR 0x0A] @ ''Action Input: cats'')
       = Inr (''Search'', ''cats'')
   \<and> \<not> is_final_answer (''Search'', ''cats'')
   \<and> get_tool_and_input (''Action: Final Answer'' @ [CHR 0x0A] @ ''Action Input: cats'')
       = Inr (''Final Answer'', ''cats'')
   \<and> is_final_answer (''Final Answer'', ''cats'')
   \<and> get_tool_and_input ''Action: Search, then Input: cats''
       = Inl (ValueError (''Output of LLM is not parsable for next tool use: `''
                @ ''Action: Search, then Input: cats'' @ ''`''))
   \<and> action_grammar (''Action: Search'' @ [CHR 0x0A] @ ''Action Input: cats'')"
proof -
  have a: "\<exists>answer. get_tool_and_input ''I know it. Final Answer: 42'' = Inr (''Final Answer'', answer)
       \<and> is_final_answer (''Final Answer'', answer)"
  proof -
    have "contains FINAL_ANSWER_TOKEN ''I know it. Final Answer: 42''" by code_simp
    with parser_three_outcomes[of "''I know it. Final Answer: 42''"] show ?thesis by blast
  qed
  let ?g = "''Action: Search'' @ [CHR 0x0A] @ ''Action Input: cats''"
  have g1: "\<not> contains FINAL_ANSWER_TOKEN ?g" by code_simp
  have g2: "action_pattern ?g"
    by (rule action_patternI[of _ "[]" "''Search'' @ [CHR 0x0A]" "'' cats''"]) simp
  have g3: "re_search ?g = Some (''Search'', ''cats'')" by code_simp
  have g4: "strip ''Search'' = ''Search''" by code_simp
  have g5: "strip_chars [CHR 0x22] (strip_chars '' '' ''cats'') = ''cats''" by code_simp
  from parser_three_outcomes[of ?g] g1 g2 obtain h1 h2 where
    h: "re_search ?g = Some (h1, h2)"
       "get_tool_and_input ?g = Inr (strip h1, strip_chars [CHR 0x22] (strip_chars '' '' h2))"
       "is_final_answer (strip h1, strip_chars [CHR 0x22] (strip_chars '' '' h2))
          \<longleftrightarrow> strip h1 = ''Final Answer''"
    by blast
  from h(1) g3 have hh: "h1 = ''Search''" "h2 = ''cats''" by simp_all
  have b: "get_tool_and_input ?g = Inr (''Search'', ''cats'')"
    using h(2) unfolding hh g4 g5 .
  have c: "\<not> is_final_answer (''Search'', ''cats'')"
    using h(3) unfolding hh g4 g5 by simp
  from parser_three_outcomes[of ?g] g2 have g: "action_grammar ?g" by blast
  let ?f = "''Action: Final Answer'' @ [CHR 0x0A] @ ''Action Input: cats''"
  have f1: "\<not> contains FINAL_ANSWER_TOKEN ?f" by code_simp
  have f2: "action_pattern ?f"
    by (rule action_patternI[of _ "[]" "''Final Answer'' @ [CHR 0x0A]" "'' cats''"]) simp
  have f3: "re_search ?f = Some (''Final Answer'', ''cats'')" by code_simp
  have f4: "strip ''Final Answer'' = ''Final Answer''" by code_simp
  from parser_three_outcomes[of ?f] f1 f2 obtain k1 k2 where
    k: "re_search ?f = Some (k1, k2)"
       "get_tool_and_input ?f = Inr (strip k1, strip_chars [CHR 0x22] (strip_chars '' '' k2))"
       "is_final_answer (strip k1, strip_chars [CHR 0x22] (strip_chars '' '' k2))
          \<longleftrightarrow> strip k1 = ''Final Answer''"
    by blast
  from k(1) f3 have kk: "k1 = ''Final Answer''" "k2 = ''cats''" by simp_all
  have d: "get_tool_and_input ?f = Inr (''Final Answer'', ''cats'')"
    using k(2) unfolding kk f4 g5 .
  have e: "is_final_answer (''Final Answer'', ''cats'')"
    using k(3) unfolding kk f4 g5 by simp
  let ?n = "''Action: Search, then Input: cats''"
  have n1: "\<not> contains FINAL_ANSWER_TOKEN ?n" by code_simp
  have "re_search ?n = None" by code_simp
  then have n2: "\<not> action_pattern ?n" using re_search_iff[of ?n] by simp
  from parser_three_outcomes[of ?n] n1 n2
  have f: "get_tool_and_input ?n = Inl (ValueError (''Output of LLM is not parsable for next tool use: `''
                @ ?n @ ''`''))" by blast
  show ?thesis by (intro conjI a b c d e f g)
qed

text \<open>
  Claim C6, as stated, fails: a bracket that does not stand directly after \<open>Action: \<close>, or
  directly before the newlines in front of \<open>Action Input:\<close>, stays in the tool name,
  and a space behind the opening quote stays in the tool input.
\<close>

theorem action_branch_trimming_counterexample:
  "\<not> contains FINAL_ANSWER_TOKEN
       (''Action: [Search] '' @ [CHR 0x0A] @ ''Action Input: '' @ [CHR 0x22] @ '' hello'' @ [CHR 0x22])
   \<and> get_tool_and_input
       (''Action: [Search] '' @ [CHR 0x0A] @ ''Action Input: '' @ [CHR 0x22] @ '' hello'' @ [CHR 0x22])
     = Inr (''Search]'', '' hello'')"
  by code_simp

text \<open>
  Claim C6, amended. A text goes through the action branch with a given result exactly
  when it has the shape \<open>pre Action: lb g1 rb nls Action Input: rest\<close> in which
  \<open>Action: \<close> is the first such label of the text and \<open>Action Input:\<close> the first such label
  behind it, \<open>lb\<close> is the opening bracket that stands directly behind \<open>Action: \<close> (empty
  when there is none), \<open>nls\<close> is the whole run of newlines directly in front of
  \<open>Action Input:\<close> and \<open>rb\<close> is the closing bracket directly in front of that run (empty
  when there is none). The tool name is \<open>g1\<close> with the whitespace at both ends removed, so
  it neither begins nor ends with whitespace: of the brackets, one that is adjacent to
  the label on either side is removed, any other stays. The tool input is \<open>rest\<close>
  without its leading whitespace, then without the spaces at both ends, then without
  the double quotes at both ends, so it neither begins nor ends with a double quote. The
  text \<open>Action: [Search]\nAction Input: "hello"\<close> gives \<open>Search\<close> and \<open>hello\<close>.
\<close>

theorem action_branch_trimming:
  "(\<not> contains FINAL_ANSWER_TOKEN generated \<and>
    get_tool_and_input generated = Inr (tool, tool_input) \<longrightarrow>
      (\<exists>pre lb g1 rb nls rest.
         generated = pre @ ''Action: '' @ lb @ g1 @ rb @ nls @ ''Action Input:'' @ rest
         \<and> (\<forall>x y. generated = x @ ''Action: '' @ y \<longrightarrow> length pre \<le> length x)
         \<and> (\<forall>x y. g1 @ rb @ nls @ ''Action Input:'' @ rest = x @ ''Action Input:'' @ y
                \<longrightarrow> length (g1 @ rb @ nls) \<le> length x)
         \<and> (lb = ''['' \<or> lb = [] \<and> \<not> prefix ''['' g1)
         \<and> (rb = '']'' \<or> rb = [] \<and> \<not> suffix '']'' g1)
         \<and> set nls \<subseteq> {CHR 0x0A} \<and> \<not> suffix [CHR 0x0A] (g1 @ rb)
         \<and> tool = strip g1
         \<and> tool_input = strip_chars [CHR 0x22] (strip_chars '' '' (dropWhile isspace rest)))
      \<and> (tool \<noteq> [] \<longrightarrow> \<not> isspace (hd tool) \<and> \<not> isspace (last tool))
      \<and> (tool_input \<noteq> [] \<longrightarrow> hd tool_input \<noteq> CHR 0x22 \<and> last tool_input \<noteq> CHR 0x22))
   \<and> (\<not> contains FINAL_ANSWER_TOKEN generated \<and>
      generated = pre @ ''Action: '' @ lb @ g1 @ rb @ nls @ ''Action Input:'' @ rest
      \<and> (\<forall>x y. generated = x @ ''Action: '' @ y \<longrightarrow> length pre \<le> length x)
      \<and> (\<forall>x y. g1 @ rb @ nls @ ''Action Input:'' @ rest = x @ ''Action Input:'' @ y
             \<longrightarrow> length (g1 @ rb @ nls) \<le> length x)
      \<and> (lb = ''['' \<or> lb = [] \<and> \<not> prefix ''['' g1)
      \<and> (rb = '']'' \<or> rb = [] \<and> \<not> suffix '']'' g1)
      \<and> set nls \<subseteq> {CHR 0x0A} \<and> \<not> suffix [CHR 0x0A] (g1 @ rb) \<longrightarrow>
        get_tool_and_input generated
          = Inr (strip g1, strip_chars [CHR 0x22] (strip_chars '' '' (dropWhile isspace rest))))
   \<and> get_tool_and_input
        (''Action: [Search]'' @ [CHR 0x0A] @ ''Action Input: '' @ [CHR 0x22] @ ''hello'' @ [CHR 0x22])
      = Inr (''Search'', ''hello'')"
proof -
  have general: "\<exists>pre lb g1 rb nls rest.
         generated = pre @ ''Action: '' @ lb @ g1 @ rb @ nls @ ''Action Input:'' @ rest
         \<and> (\<forall>x y. generated = x @ ''Action: '' @ y \<longrightarrow> length pre \<le> length x)
         \<and> (\<forall>x y. g1 @ rb @ nls @ ''Action Input:'' @ rest = x @ ''Action Input:'' @ y
                \<longrightarrow> length (g1 @ rb @ nls) \<le> length x)
         \<and> (lb = ''['' \<or> lb = [] \<and> \<not> prefix ''['' g1)
         \<and> (rb = '']'' \<or> rb = [] \<and> \<not> suffix '']'' g1)
         \<and> set nls \<subseteq> {CHR 0x0A} \<and> \<not> suffix [CHR 0x0A] (g1 @ rb)
         \<and> tool = strip g1
         \<and> tool_input = strip_chars [CHR 0x22] (strip_chars '' '' (dropWhile isspace rest))"
    and name_ends: "tool \<noteq> [] \<longrightarrow> \<not> isspace (hd tool) \<and> \<not> isspace (last tool)"
    and input_ends: "tool_input \<noteq> [] \<longrightarrow> hd tool_input \<noteq> CHR 0x22 \<and> last tool_input \<noteq> CHR 0x22"
    if h: "\<not> contains FINAL_ANSWER_TOKEN generated \<and>
           get_tool_and_input generated = Inr (tool, tool_input)"
  proof -
    from h obtain g1 g2 where g: "re_search generated = Some (g1, g2)" "tool = strip g1"
      "tool_input = strip_chars [CHR 0x22] (strip_chars '' '' g2)"
      by (auto simp: get_tool_and_input_def split: option.splits)
    from re_search_shape[OF g(1)] obtain pre lb rb nls rest where
      d: "generated = pre @ ''Action: '' @ lb @ g1 @ rb @ nls @ ''Action Input:'' @ rest"
         "\<forall>x y. generated = x @ ''Action: '' @ y \<longrightarrow> length pre \<le> length x"
         "\<forall>x y. g1 @ rb @ nls @ ''Action Input:'' @ rest = x @ ''Action Input:'' @ y
                \<longrightarrow> length (g1 @ rb @ nls) \<le> length x"
         "lb = ''['' \<or> lb = [] \<and> \<not> prefix ''['' g1"
         "rb = '']'' \<or> rb = [] \<and> \<not> suffix '']'' g1"
         "set nls \<subseteq> {CHR 0x0A}" "\<not> suffix [CHR 0x0A] (g1 @ rb)"
         "g2 = dropWhile isspace rest" by blast
    from g(3) d(8)
    have ti: "tool_input = strip_chars [CHR 0x22] (strip_chars '' '' (dropWhile isspace rest))"
      by (simp only:)
    show "\<exists>pre lb g1 rb nls rest.
         generated = pre @ ''Action: '' @ lb @ g1 @ rb @ nls @ ''Action Input:'' @ rest
         \<and> (\<forall>x y. generated = x @ ''Action: '' @ y \<longrightarrow> length pre \<le> length x)
         \<and> (\<forall>x y. g1 @ rb @ nls @ ''Action Input:'' @ rest = x @ ''Action Input:'' @ y
                \<longrightarrow> length (g1 @ rb @ nls) \<le> length x)
         \<and> (lb = ''['' \<or> lb = [] \<and> \<not> prefix ''['' g1)
         \<and> (rb = '']'' \<or> rb = [] \<and> \<not> suffix '']'' g1)
         \<and> set nls \<subseteq> {CHR 0x0A} \<and> \<not> suffix [CHR 0x0A] (g1 @ rb)
         \<and> tool = strip g1
         \<and> tool_input = strip_chars [CHR 0x22] (strip_chars '' '' (dropWhile isspace rest))"
      by (rule exI[of _ pre], rule exI[of _ lb], rule exI[of _ g1], rule exI[of _ rb],
          rule exI[of _ nls], rule exI[of _ rest])
         (intro conjI d(1) d(2) d(3) d(4) d(5) d(6) d(7) g(2) ti)
    show "tool \<noteq> [] \<longrightarrow> \<not> isspace (hd tool) \<and> \<not> isspace (last tool)"
      using g(2) trim_ends[of tool isspace g1] by (simp add: strip_def)
    have "tool_input = rev (dropWhile (\<lambda>c. c \<in> set [CHR 0x22])
        (rev (dropWhile (\<lambda>c. c \<in> set [CHR 0x22]) (strip_chars '' '' g2))))"
      using g(3) by (simp add: strip_chars_def)
    from trim_ends[OF this]
    show "tool_input \<noteq> [] \<longrightarrow> hd tool_input \<noteq> CHR 0x22 \<and> last tool_input \<noteq> CHR 0x22"
      by simp
  qed
  have converse: "get_tool_and_input generated
          = Inr (strip g1, strip_chars [CHR 0x22] (strip_chars '' '' (dropWhile isspace rest)))"
    if h: "\<not> contains FINAL_ANSWER_TOKEN generated \<and>
      generated = pre @ ''Action: '' @ lb @ g1 @ rb @ nls @ ''Action Input:'' @ rest
      \<and> (\<forall>x y. generated = x @ ''Action: '' @ y \<longrightarrow> length pre \<le> length x)
      \<and> (\<forall>x y. g1 @ rb @ nls @ ''Action Input:'' @ rest = x @ ''Action Input:'' @ y
             \<longrightarrow> length (g1 @ rb @ nls) \<le> length x)
      \<and> (lb = ''['' \<or> lb = [] \<and> \<not> prefix ''['' g1)
      \<and> (rb = '']'' \<or> rb = [] \<and> \<not> suffix '']'' g1)
      \<and> set nls \<subseteq> {CHR 0x0A} \<and> \<not> suffix [CHR 0x0A] (g1 @ rb)"
  proof -
    from h have nc: "\<not> contains FINAL_ANSWER_TOKEN generated" by (rule conjunct1)
    from h have c1: "generated = pre @ ''Action: '' @ lb @ g1 @ rb @ nls @ ''Action Input:'' @ rest"
      by (elim conjE)
    from h have c2: "\<forall>x y. generated = x @ ''Action: '' @ y \<longrightarrow> length pre \<le> length x"
      by (elim conjE)
    from h have c3: "\<forall>x y. g1 @ rb @ nls @ ''Action Input:'' @ rest = x @ ''Action Input:'' @ y
             \<longrightarrow> length (g1 @ rb @ nls) \<le> length x" by (elim conjE)
    from h have c4: "lb = ''['' \<or> lb = [] \<and> \<not> prefix ''['' g1" by (elim conjE)
    from h have c5: "rb = '']'' \<or> rb = [] \<and> \<not> suffix '']'' g1" by (elim conjE)
    from h have c6: "set nls \<subseteq> {CHR 0x0A}" by (elim conjE)
    from h have c7: "\<not> suffix [CHR 0x0A] (g1 @ rb)" by (elim conjE)
    from action_shape_determines[OF c1 c2 c3 c4 c5 c6 c7]
    have "re_search generated = Some (g1, dropWhile isspace rest)" .
    with nc show ?thesis by (simp add: get_tool_and_input_def)
  qed
  have example: "get_tool_and_input
        (''Action: [Search]'' @ [CHR 0x0A] @ ''Action Input: '' @ [CHR 0x22] @ ''hello'' @ [CHR 0x22])
      = Inr (''Search'', ''hello'')"
    by code_simp
  have first: "\<not> contains FINAL_ANSWER_TOKEN generated \<and>
    get_tool_and_input generated = Inr (tool, tool_input) \<longrightarrow>
      (\<exists>pre lb g1 rb nls rest.
         generated = pre @ ''Action: '' @ lb @ g1 @ rb @ nls @ ''Action Input:'' @ rest
         \<and> (\<forall>x y. generated = x @ ''Action: '' @ y \<longrightarrow> length pre \<le> length x)
         \<and> (\<forall>x y. g1 @ rb @ nls @ ''Action Input:'' @ rest = x @ ''Action Input:'' @ y
                \<longrightarrow> length (g1 @ rb @ nls) \<le> length x)
         \<and> (lb = ''['' \<or> lb = [] \<and> \<not> prefix ''['' g1)
         \<and> (rb = '']'' \<or> rb = [] \<and> \<not> suffix '']'' g1)
         \<and> set nls \<subseteq> {CHR 0x0A} \<and> \<not> suffix [CHR 0x0A] (g1 @ rb)
         \<and> tool = strip g1
         \<and> tool_input = strip_chars [CHR 0x22] (strip_chars '' '' (dropWhile isspace rest)))
      \<and> (tool \<noteq> [] \<longrightarrow> \<not> isspace (hd tool) \<and> \<not> isspace (last tool))
      \<and> (tool_input \<noteq> [] \<longrightarrow> hd tool_input \<noteq> CHR 0x22 \<and> last tool_input \<noteq> CHR 0x22)"
  proof (rule impI)
    assume a: "\<not> contains FINAL_ANSWER_TOKEN generated \<and>
      get_tool_and_input generated = Inr (tool, tool_input)"
    show "(\<exists>pre lb g1 rb nls rest.
         generated = pre @ ''Action: '' @ lb @ g1 @ rb @ nls @ ''Action Input:'' @ rest
         \<and> (\<forall>x y. generated = x @ ''Action: '' @ y \<longrightarrow> length pre \<le> length x)
         \<and> (\<forall>x y. g1 @ rb @ nls @ ''Action Input:'' @ rest = x @ ''Action Input:'' @ y
                \<longrightarrow> length (g1 @ rb @ nls) \<le> length x)
         \<and> (lb = ''['' \<or> lb = [] \<and> \<not> prefix ''['' g1)
         \<and> (rb = '']'' \<or> rb = [] \<and> \<not> suffix '']'' g1)
         \<and> set nls \<subseteq> {CHR 0x0A} \<and> \<not> suffix [CHR 0x0A] (g1 @ rb)
         \<and> tool = strip g1
         \<and> tool_input = strip_chars [CHR 0x22] (strip_chars '' '' (dropWhile isspace rest)))
      \<and> (tool \<noteq> [] \<longrightarrow> \<not> isspace (hd tool) \<and> \<not> isspace (last tool))
      \<and> (tool_input \<noteq> [] \<longrightarrow> hd tool_input \<noteq> CHR 0x22 \<and> last tool_input \<noteq> CHR 0x22)"
      by (rule conjI[OF general[OF a] conjI[OF name_ends[OF a] input_ends[OF a]]])
  qed
  from converse have second: "\<not> contains FINAL_ANSWER_TOKEN generated \<and>
      generated = pre @ ''Action: '' @ lb @ g1 @ rb @ nls @ ''Action Input:'' @ rest
      \<and> (\<forall>x y. generated = x @ ''Action: '' @ y \<longrightarrow> length pre \<le> length x)
      \<and> (\<forall>x y. g1 @ rb @ nls @ ''Action Input:'' @ rest = x @ ''Action Input:'' @ y
             \<longrightarrow> length (g1 @ rb @ nls) \<le> length x)
      \<and> (lb = ''['' \<or> lb = [] \<and> \<not> prefix ''['' g1)
      \<and> (rb = '']'' \<or> rb = [] \<and> \<not> suffix '']'' g1)
      \<and> set nls \<subseteq> {CHR 0x0A} \<and> \<not> suffix [CHR 0x0A] (g1 @ rb) \<longrightarrow>
        get_tool_and_input generated
          = Inr (strip g1, strip_chars [CHR 0x22] (strip_chars '' '' (dropWhile isspace rest)))"
    by (rule impI)
  show ?thesis by (rule conjI[OF first conjI[OF second example]])
qed

theorem action_branch_trimming_witness:
  "\<not> contains FINAL_ANSWER_TOKEN
       (''Thought: look it up'' @ [CHR 0x0A] @ ''Action: [ Lookup ]'' @ [CHR 0x0A, CHR 0x0A] @
        ''Action Input:   '' @ [CHR 0x22] @ ''what is x'' @ [CHR 0x22] @ ''  '')
   \<and> get_tool_and_input
       (''Thought: look it up'' @ [CHR 0x0A] @ ''Action: [ Lookup ]'' @ [CHR 0x0A, CHR 0x0A] @
        ''Action Input:   '' @ [CHR 0x22] @ ''what is x'' @ [CHR 0x22] @ ''  '')
     = Inr (''Lookup'', ''what is x'')
   \<and> (\<exists>pre lb g1 rb nls rest.
         ''Thought: look it up'' @ [CHR 0x0A] @ ''Action: [ Lookup ]'' @ [CHR 0x0A, CHR 0x0A] @
         ''Action Input:   '' @ [CHR 0x22] @ ''what is x'' @ [CHR 0x22] @ ''  ''
         = pre @ ''Action: '' @ lb @ g1 @ rb @ nls @ ''Action Input:'' @ rest
         \<and> (\<forall>x y. ''Thought: look it up'' @ [CHR 0x0A] @ ''Action: [ Lookup ]'' @
                  [CHR 0x0A, CHR 0x0A] @ ''Action Input:   '' @ [CHR 0x22] @ ''what is x'' @
                  [CHR 0x22] @ ''  '' = x @ ''Action: '' @ y \<longrightarrow> length pre \<le> length x)
         \<and> (\<forall>x y. g1 @ rb @ nls @ ''Action Input:'' @ rest = x @ ''Action Input:'' @ y
                \<longrightarrow> length (g1 @ rb @ nls) \<le> length x)
         \<and> (lb = ''['' \<or> lb = [] \<and> \<not> prefix ''['' g1)
         \<and> (rb = '']'' \<or> rb = [] \<and> \<not> suffix '']'' g1)
         \<and> set nls \<subseteq> {CHR 0x0A} \<and> \<not> suffix [CHR 0x0A] (g1 @ rb)
         \<and> ''Lookup'' = strip g1
         \<and> ''what is x'' = strip_chars [CHR 0x22] (strip_chars '' '' (dropWhile isspace rest)))"
proof -
  let ?g = "''Thought: look it up'' @ [CHR 0x0A] @ ''Action: [ Lookup ]'' @ [CHR 0x0A, CHR 0x0A] @
        ''Action Input:   '' @ [CHR 0x22] @ ''what is x'' @ [CHR 0x22] @ ''  ''"
  have 1: "\<not> contains FINAL_ANSWER_TOKEN ?g" by code_simp
  have 2: "get_tool_and_input ?g = Inr (''Lookup'', ''what is x'')" by code_simp
  note t = action_branch_trimming[of ?g "''Lookup''" "''what is x''", THEN conjunct1]
  from t[THEN mp, OF conjI[OF 1 2], THEN conjunct1]
  show ?thesis by (intro conjI 1 2)
qed

section \<open>Facts about one pass and about the loop\<close>

lemma iteration_Continue:
  assumes "iteration g self m s = Continue s'"
  shows "\<exists>p out tool inp w1 t res w2.
           format_py g (join_nl (previous_responses s)) = Inr p
         \<and> get_next_action self p (world s) = (Inr (out, tool, inp), w1)
         \<and> tool \<noteq> ''Final Answer'' \<and> m tool = Some t \<and> func t inp w1 = (res, w2)
         \<and> s' = s\<lparr>previous_responses := previous_responses s @ [record_of out res],
                  num_loops := num_loops s + 1, world := w2,
                  calls := calls s @ [Generate p, Invoke tool inp, Print (record_of out res)]\<rparr>"
  using assms
  by (auto simp: iteration_def Let_def record_of_def
           split: sum.splits prod.splits if_splits option.splits)

lemma iteration_Stop:
  assumes "iteration g self m s = Stop r s'"
  shows "previous_responses s' = previous_responses s \<and> num_loops s' = num_loops s + 1
         \<and> (calls s' = calls s \<or> (\<exists>p. calls s' = calls s @ [Generate p]))"
  using assms
  by (auto simp: iteration_def Let_def
           split: sum.splits prod.splits if_splits option.splits)

lemma llm_calls_simps:
  "llm_calls [] = 0"
  "llm_calls (es @ es') = llm_calls es + llm_calls es'"
  "llm_calls (Generate p # es) = Suc (llm_calls es)"
  "llm_calls (Invoke t i # es) = llm_calls es"
  "llm_calls (Print x # es) = llm_calls es"
  by (simp_all add: llm_calls_def)

lemma tool_runs_simps:
  "tool_runs [] = 0"
  "tool_runs (es @ es') = tool_runs es + tool_runs es'"
  "tool_runs (Generate p # es) = tool_runs es"
  "tool_runs (Invoke t i # es) = Suc (tool_runs es)"
  "tool_runs (Print x # es) = tool_runs es"
  by (simp_all add: tool_runs_def)

lemma dom_fold_tools:
  "dom (fold (\<lambda>t m. m(name t \<mapsto> t)) ts m0) = dom m0 \<union> name ` set ts"
  by (induction ts arbitrary: m0) auto

lemma dom_name_to_tool_map: "dom (name_to_tool_map ts) = name ` set ts"
  by (simp add: name_to_tool_map_def dom_fold_tools)

lemma format_py_indep: "format_py t v = Inr r \<Longrightarrow> \<exists>r'. format_py t v' = Inr r'"
proof (induction t v arbitrary: r rule: format_py.induct)
  case (1 v)
  then show ?case by simp
next
  case (2 c cs v)
  define b where "b = prefix ''previous_responses}'' cs"
  define rest where "rest = drop (length ''previous_responses}'') cs"
  note IH = "2.IH"[folded b_def rest_def]
  have eq: "format_py (c # cs) x =
     (if c = CHR ''{'' then
        (case cs of
           [] \<Rightarrow> Inl FormatError
         | d # ds \<Rightarrow>
             if d = CHR ''{'' then
               (case format_py ds x of Inl e \<Rightarrow> Inl e | Inr r \<Rightarrow> Inr (CHR ''{'' # r))
             else if b then
               (case format_py rest x of
                  Inl e \<Rightarrow> Inl e
                | Inr r \<Rightarrow> Inr (x @ r))
             else Inl FormatError)
      else if c = CHR ''}'' then
        (case cs of
           [] \<Rightarrow> Inl FormatError
         | d # ds \<Rightarrow>
             if d = CHR ''}'' then
               (case format_py ds x of Inl e \<Rightarrow> Inl e | Inr r \<Rightarrow> Inr (CHR ''}'' # r))
             else Inl FormatError)
      else (case format_py cs x of Inl e \<Rightarrow> Inl e | Inr r \<Rightarrow> Inr (c # r)))" for x
    unfolding b_def rest_def by (fact format_py.simps(2))
  have ok: "\<exists>r1. x = Inr r1"
    if "(case x of Inl e \<Rightarrow> Inl e | Inr r \<Rightarrow> Inr (h r)) = Inr r0"
    for x :: "error + string" and h r0
    using that by (cases x) auto
  from "2.prems" have p0: "format_py (c # cs) v = Inr r" .
  note p = p0[unfolded eq]
  show ?case
  proof (cases "c = CHR ''{''")
    case True
    show ?thesis
    proof (cases cs)
      case Nil
      with p True show ?thesis unfolding eq by simp
    next
      case (Cons d ds)
      show ?thesis
      proof (cases "d = CHR ''{''")
        case d: True
        from p True Cons d
        have "(case format_py ds v of Inl e \<Rightarrow> Inl e | Inr r \<Rightarrow> Inr (CHR ''{'' # r)) = Inr r"
          by simp
        from ok[OF this] obtain r1 where r1: "format_py ds v = Inr r1" by blast
        from IH(1)[OF True Cons d r1] obtain r2 where "format_py ds v' = Inr r2" by blast
        with True Cons d show ?thesis unfolding eq by simp
      next
        case d: False
        show ?thesis
        proof (cases b)
          case b: True
          from p True Cons d b
          have "(case format_py rest v of Inl e \<Rightarrow> Inl e | Inr r \<Rightarrow> Inr (v @ r)) = Inr r"
            by simp
          from ok[OF this] obtain r1 where r1: "format_py rest v = Inr r1" by blast
        from IH(2)[OF True Cons d b r1] obtain r2 where "format_py rest v' = Inr r2" by blast
        with True Cons d b show ?thesis unfolding eq by simp
        next
          case b: False
          with p True Cons d show ?thesis unfolding eq by simp
        qed
      qed
    qed
  next
    case False
    show ?thesis
    proof (cases "c = CHR ''}''")
      case c: True
      show ?thesis
      proof (cases cs)
        case Nil
        with p False c show ?thesis unfolding eq by simp
      next
        case (Cons d ds)
        show ?thesis
        proof (cases "d = CHR ''}''")
          case d: True
          from p False c Cons d
          have "(case format_py ds v of Inl e \<Rightarrow> Inl e | Inr r \<Rightarrow> Inr (CHR ''}'' # r)) = Inr r"
            by simp
          from ok[OF this] obtain r1 where r1: "format_py ds v = Inr r1" by blast
        from IH(3)[OF False c Cons d r1] obtain r2 where "format_py ds v' = Inr r2" by blast
        with False c Cons d show ?thesis unfolding eq by simp
        next
          case d: False
          with p False c Cons show ?thesis unfolding eq by simp
        qed
      qed
    next
      case c: False
      from p False c
      have "(case format_py cs v of Inl e \<Rightarrow> Inl e | Inr r \<Rightarrow> Inr (c # r)) = Inr r"
        by simp
      from ok[OF this] obtain r1 where r1: "format_py cs v = Inr r1" by blast
        from IH(4)[OF False c r1] obtain r2 where "format_py cs v' = Inr r2" by blast
        with False c show ?thesis unfolding eq by simp
    qed
  qed
qed

lemma run_loop_bounds:
  "run_loop g self m s = (r, s') \<Longrightarrow>
     num_loops s \<le> num_loops s' \<and> num_loops s' \<le> max (num_loops s) (max_loops self)
     \<and> llm_calls (calls s') \<le> llm_calls (calls s) + nat (num_loops s' - num_loops s)"
proof (induction g self m s rule: run_loop.induct)
  case (1 g self m s)
  show ?case
  proof (cases "num_loops s < max_loops self")
    case False
    with "1.prems" show ?thesis by (simp add: run_loop.simps)
  next
    case True
    show ?thesis
    proof (cases "iteration g self m s")
      case (Stop r0 s0)
      with True "1.prems" have "r = r0" "s' = s0" by (simp_all add: run_loop.simps)
      with iteration_Stop[OF Stop] True show ?thesis by (auto simp: llm_calls_simps)
    next
      case (Continue s1)
      with True "1.prems" have rl: "run_loop g self m s1 = (r, s')" by (simp add: run_loop.simps)
      from "1.IH"[OF True Continue rl] iteration_Continue[OF Continue] True
      show ?thesis by (auto simp: llm_calls_simps)
    qed
  qed
qed

lemma run_loop_transcript:
  "run_loop g self m s = (r, s') \<Longrightarrow>
     length (previous_responses s') + tool_runs (calls s)
       = length (previous_responses s) + tool_runs (calls s')
     \<and> prefix (previous_responses s) (previous_responses s')"
proof (induction g self m s rule: run_loop.induct)
  case (1 g self m s)
  show ?case
  proof (cases "num_loops s < max_loops self")
    case False
    with "1.prems" show ?thesis by (simp add: run_loop.simps)
  next
    case True
    show ?thesis
    proof (cases "iteration g self m s")
      case (Stop r0 s0)
      with True "1.prems" have "r = r0" "s' = s0" by (simp_all add: run_loop.simps)
      with iteration_Stop[OF Stop] show ?thesis by (auto simp: tool_runs_simps)
    next
      case (Continue s1)
      with True "1.prems" have rl: "run_loop g self m s1 = (r, s')" by (simp add: run_loop.simps)
      from "1.IH"[OF True Continue rl] iteration_Continue[OF Continue]
      show ?thesis by (auto simp: tool_runs_simps dest: append_prefixD)
    qed
  qed
qed

lemma run_loop_None_iff:
  "run_loop g self m s = (r, s') \<Longrightarrow> int (length (previous_responses s)) = num_loops s \<Longrightarrow>
     (r = Inr None \<longrightarrow> int (length (previous_responses s')) = num_loops s'
                        \<and> max_loops self \<le> num_loops s')
     \<and> (r \<noteq> Inr None \<longrightarrow> int (length (previous_responses s')) < num_loops s'
                        \<and> num_loops s' \<le> max_loops self)"
proof (induction g self m s rule: run_loop.induct)
  case (1 g self m s)
  show ?case
  proof (cases "num_loops s < max_loops self")
    case False
    with "1.prems" show ?thesis by (simp add: run_loop.simps)
  next
    case True
    show ?thesis
    proof (cases "iteration g self m s")
      case (Stop r0 s0)
      with True "1.prems" have "r = r0" "s' = s0" by (simp_all add: run_loop.simps)
      moreover from Stop have "r0 \<noteq> Inr None"
        by (auto simp: iteration_def Let_def
                 split: sum.splits prod.splits if_splits option.splits)
      ultimately show ?thesis using iteration_Stop[OF Stop] True "1.prems"(2) by simp
    next
      case (Continue s1)
      with True "1.prems" have rl: "run_loop g self m s1 = (r, s')" by (simp add: run_loop.simps)
      from iteration_Continue[OF Continue] "1.prems"(2)
      have "int (length (previous_responses s1)) = num_loops s1" by auto
      from "1.IH"[OF True Continue rl this] show ?thesis .
    qed
  qed
qed

lemma iteration_ContinueI:
  assumes p: "format_py g (join_nl (previous_responses s)) = Inr p"
    and a: "get_next_action self p (world s) = (Inr (out, tool, inp), w')" "tool \<noteq> ''Final Answer''"
    and t: "m tool = Some t" and r: "func t inp w' = (res, w'')"
  shows "\<exists>s'. iteration g self m s = Continue s'"
  using assms by (simp add: iteration_def Let_def)

lemma iteration_dispatches:
  assumes "format_py g [] = Inr p0"
    and "\<forall>p w. \<exists>out tool inp w'. get_next_action self p w = (Inr (out, tool, inp), w')
           \<and> tool \<noteq> ''Final Answer'' \<and> m tool \<noteq> None"
  shows "\<exists>s'. iteration g self m s = Continue s'"
proof -
  from format_py_indep[OF assms(1), of "join_nl (previous_responses s)"] obtain p
    where p: "format_py g (join_nl (previous_responses s)) = Inr p" ..
  from assms(2) have "\<exists>out tool inp w'. get_next_action self p (world s) = (Inr (out, tool, inp), w')
           \<and> tool \<noteq> ''Final Answer'' \<and> m tool \<noteq> None" by (elim allE)
  then obtain out tool inp w' where
    a: "get_next_action self p (world s) = (Inr (out, tool, inp), w')" "tool \<noteq> ''Final Answer''"
       "m tool \<noteq> None" by (elim exE conjE)
  from a(3) obtain t where t: "m tool = Some t" by (cases "m tool") simp_all
  obtain res w'' where r: "func t inp w' = (res, w'')" by (cases "func t inp w'") simp
  show ?thesis by (rule iteration_ContinueI[where m=m, OF p a(1,2) t r])
qed


lemma run_loop_all_dispatch:
  assumes "format_py g [] = Inr p0"
    and "\<forall>p w. \<exists>out tool inp w'. get_next_action self p w = (Inr (out, tool, inp), w')
           \<and> tool \<noteq> ''Final Answer'' \<and> m tool \<noteq> None"
  shows "\<exists>s'. run_loop g self m s = (Inr None, s')
           \<and> num_loops s' = max (num_loops s) (max_loops self)
           \<and> llm_calls (calls s') = llm_calls (calls s) + nat (max_loops self - num_loops s)
           \<and> tool_runs (calls s') = tool_runs (calls s) + nat (max_loops self - num_loops s)"
  using assms
proof (induction g self m s rule: run_loop.induct)
  case (1 g self m s)
  show ?case
  proof (cases "num_loops s < max_loops self")
    case False
    then show ?thesis by (simp add: run_loop.simps)
  next
    case True
    from iteration_dispatches[OF "1.prems"] obtain s1 where
      c: "iteration g self m s = Continue s1" by blast
    from "1.IH"[OF True c "1.prems"] obtain s' where
      s': "run_loop g self m s1 = (Inr None, s')"
          "num_loops s' = max (num_loops s1) (max_loops self)"
          "llm_calls (calls s') = llm_calls (calls s1) + nat (max_loops self - num_loops s1)"
          "tool_runs (calls s') = tool_runs (calls s1) + nat (max_loops self - num_loops s1)"
      by blast
    from c True s'(1) have "run_loop g self m s = (Inr None, s')" by (simp add: run_loop.simps)
    moreover from iteration_Continue[OF c] have
      "num_loops s1 = num_loops s + 1" "llm_calls (calls s1) = Suc (llm_calls (calls s))"
      "tool_runs (calls s1) = Suc (tool_runs (calls s))"
      by (auto simp: llm_calls_simps tool_runs_simps)
    ultimately show ?thesis using s'(2,3,4) True by auto
  qed
qed

section \<open>The iteration budget\<close>

lemma get_next_action_parsed:
  assumes "llm self [p] (stop_pattern self) w = ((out # gs) # gss, w')"
  shows "get_next_action self p w =
           (case get_tool_and_input out of
              Inl e \<Rightarrow> (Inl e, w')
            | Inr (tool, tool_input) \<Rightarrow> (Inr (out, tool, tool_input), w'))"
  using assms by (simp add: get_next_action_def)

lemma run_start:
  "run g self q w = run_loop g self (name_to_tool_map (tools self))
       \<lparr>previous_responses = [], num_loops = 0, world = w, calls = []\<rparr>"
  by (simp add: run_def)

text \<open>
  Claim C3, as stated, fails: a client that always asks for a tool the registry does not
  hold ends the run in the first pass, whatever the budget.
\<close>

theorem run_exactly_budget_counterexample:
  "get_tool_and_input (''Action: Search'' @ [CHR 0x0A] @ ''Action Input: x'') = Inr (''Search'', ''x'')
   \<and> fst (run ''Q {previous_responses}''
          \<lparr>llm = const_llm (''Action: Search'' @ [CHR 0x0A] @ ''Action Input: x''),
           prompt = ''Q {previous_responses}'', tools = [], max_loops = 2,
           stop_pattern = [CHR 0x0A # OBSERVATION_TOKEN]\<rparr> ''q'' ())
       = Inl (KeyError ''Search'')
   \<and> num_loops (snd (run ''Q {previous_responses}''
          \<lparr>llm = const_llm (''Action: Search'' @ [CHR 0x0A] @ ''Action Input: x''),
           prompt = ''Q {previous_responses}'', tools = [], max_loops = 2,
           stop_pattern = [CHR 0x0A # OBSERVATION_TOKEN]\<rparr> ''q'' ())) = 1
   \<and> llm_calls (calls (snd (run ''Q {previous_responses}''
          \<lparr>llm = const_llm (''Action: Search'' @ [CHR 0x0A] @ ''Action Input: x''),
           prompt = ''Q {previous_responses}'', tools = [], max_loops = 2,
           stop_pattern = [CHR 0x0A # OBSERVATION_TOKEN]\<rparr> ''q'' ()))) = 1"
  by code_simp

text \<open>
  Claim C3, amended. Whatever the client, the registry and the template, \<open>run\<close> returns,
  calls the language model at most \<open>max_loops\<close> times and never counts beyond
  \<open>max_loops\<close> (beyond 0 for a negative budget). Where the budget is not negative, the
  template renders, and every output of the client parses to a pair whose tool name is
  registered and is not the literal \<open>Final Answer\<close>, the run makes exactly \<open>max_loops\<close>
  passes: that many calls of the language model, that many runs of a tool, and then the
  loop ends.
\<close>

theorem run_exactly_budget:
  "llm_calls (calls (snd (run g self q w))) \<le> nat (max_loops self)
   \<and> num_loops (snd (run g self q w)) \<le> max 0 (max_loops self)
   \<and> (0 \<le> max_loops self \<and> (\<exists>p0. format_py g [] = Inr p0) \<and>
       (\<forall>prompts w. \<exists>out gs gss w' tool tool_input.
           llm self prompts (stop_pattern self) w = ((out # gs) # gss, w')
           \<and> get_tool_and_input out = Inr (tool, tool_input)
           \<and> tool \<noteq> ''Final Answer'' \<and> tool \<in> name ` set (tools self))
       \<longrightarrow> fst (run g self q w) = Inr None
           \<and> num_loops (snd (run g self q w)) = max_loops self
           \<and> llm_calls (calls (snd (run g self q w))) = nat (max_loops self)
           \<and> tool_runs (calls (snd (run g self q w))) = nat (max_loops self))"
proof -
  let ?m = "name_to_tool_map (tools self)"
  let ?s0 = "\<lparr>previous_responses = [], num_loops = 0, world = w, calls = []\<rparr>"
  obtain r s' where rs: "run_loop g self ?m ?s0 = (r, s')" by (cases "run_loop g self ?m ?s0") auto
  from run_loop_bounds[OF rs]
  have b: "0 \<le> num_loops s'" "num_loops s' \<le> max 0 (max_loops self)"
          "llm_calls (calls s') \<le> nat (num_loops s')"
    by (simp_all add: llm_calls_simps)
  then have "llm_calls (calls s') \<le> nat (max_loops self)" by linarith
  with b(2) rs have bounds: "llm_calls (calls (snd (run g self q w))) \<le> nat (max_loops self)"
    "num_loops (snd (run g self q w)) \<le> max 0 (max_loops self)"
    by (simp_all add: run_start)
  have exact: "fst (run g self q w) = Inr None
           \<and> num_loops (snd (run g self q w)) = max_loops self
           \<and> llm_calls (calls (snd (run g self q w))) = nat (max_loops self)
           \<and> tool_runs (calls (snd (run g self q w))) = nat (max_loops self)"
    if h: "0 \<le> max_loops self \<and> (\<exists>p0. format_py g [] = Inr p0) \<and>
       (\<forall>prompts w. \<exists>out gs gss w' tool tool_input.
           llm self prompts (stop_pattern self) w = ((out # gs) # gss, w')
           \<and> get_tool_and_input out = Inr (tool, tool_input)
           \<and> tool \<noteq> ''Final Answer'' \<and> tool \<in> name ` set (tools self))"
  proof -
    from h obtain p0 where p0: "format_py g [] = Inr p0" by blast
    have d: "\<forall>p w. \<exists>out tool inp w'. get_next_action self p w = (Inr (out, tool, inp), w')
           \<and> tool \<noteq> ''Final Answer'' \<and> ?m tool \<noteq> None"
    proof (intro allI)
      fix p w
      from h have "\<exists>out gs gss w' tool tool_input.
           llm self [p] (stop_pattern self) w = ((out # gs) # gss, w')
           \<and> get_tool_and_input out = Inr (tool, tool_input)
           \<and> tool \<noteq> ''Final Answer'' \<and> tool \<in> name ` set (tools self)" by blast
      then obtain out gs gss w' tool tool_input where
        l: "llm self [p] (stop_pattern self) w = ((out # gs) # gss, w')"
           "get_tool_and_input out = Inr (tool, tool_input)"
           "tool \<noteq> ''Final Answer''" "tool \<in> name ` set (tools self)" by blast
      from l(4) have "tool \<in> dom ?m" by (simp add: dom_name_to_tool_map)
      then have "?m tool \<noteq> None" by blast
      moreover from get_next_action_parsed[OF l(1)] l(2)
      have "get_next_action self p w = (Inr (out, tool, tool_input), w')" by simp
      ultimately show "\<exists>out tool inp w'. get_next_action self p w = (Inr (out, tool, inp), w')
           \<and> tool \<noteq> ''Final Answer'' \<and> ?m tool \<noteq> None" using l(3) by blast
    qed
    from run_loop_all_dispatch[OF p0 d, of ?s0] obtain s'' where
      "run_loop g self ?m ?s0 = (Inr None, s'')"
      "num_loops s'' = max 0 (max_loops self)"
      "llm_calls (calls s'') = nat (max_loops self)"
      "tool_runs (calls s'') = nat (max_loops self)"
      by (auto simp: llm_calls_simps tool_runs_simps)
    with h show ?thesis by (simp add: run_start)
  qed
  from bounds exact show ?thesis by blast
qed

theorem run_exactly_budget_witness:
  "fst (run ''Q {previous_responses}''
          \<lparr>llm = const_llm (''Action: Search'' @ [CHR 0x0A] @ ''Action Input: x''),
           prompt = ''Q {previous_responses}'', tools = [fixed_tool ''Search'' ''found''],
           max_loops = 3, stop_pattern = [CHR 0x0A # OBSERVATION_TOKEN]\<rparr> ''q'' ()) = Inr None
   \<and> num_loops (snd (run ''Q {previous_responses}''
          \<lparr>llm = const_llm (''Action: Search'' @ [CHR 0x0A] @ ''Action Input: x''),
           prompt = ''Q {previous_responses}'', tools = [fixed_tool ''Search'' ''found''],
           max_loops = 3, stop_pattern = [CHR 0x0A # OBSERVATION_TOKEN]\<rparr> ''q'' ())) = 3
   \<and> llm_calls (calls (snd (run ''Q {previous_responses}''
          \<lparr>llm = const_llm (''Action: Search'' @ [CHR 0x0A] @ ''Action Input: x''),
           prompt = ''Q {previous_responses}'', tools = [fixed_tool ''Search'' ''found''],
           max_loops = 3, stop_pattern = [CHR 0x0A # OBSERVATION_TOKEN]\<rparr> ''q'' ()))) = 3"
proof -
  let ?out = "''Action: Search'' @ [CHR 0x0A] @ ''Action Input: x''"
  let ?self = "\<lparr>llm = const_llm ?out,
           prompt = ''Q {previous_responses}'', tools = [fixed_tool ''Search'' ''found''],
           max_loops = 3, stop_pattern = [CHR 0x0A # OBSERVATION_TOKEN]\<rparr> :: unit agent"
  have 1: "0 \<le> max_loops ?self" by simp
  have 2: "\<exists>p0. format_py ''Q {previous_responses}'' [] = Inr p0" by simp
  have parse: "get_tool_and_input ?out = Inr (''Search'', ''x'')" by code_simp
  have 3: "\<forall>prompts w. \<exists>out gs gss w' tool tool_input.
           llm ?self prompts (stop_pattern ?self) w = ((out # gs) # gss, w')
           \<and> get_tool_and_input out = Inr (tool, tool_input)
           \<and> tool \<noteq> ''Final Answer'' \<and> tool \<in> name ` set (tools ?self)"
  proof (intro allI)
    fix prompts and w :: unit
    have "llm ?self prompts (stop_pattern ?self) w = ((?out # []) # [], w)
           \<and> get_tool_and_input ?out = Inr (''Search'', ''x'')
           \<and> ''Search'' \<noteq> ''Final Answer'' \<and> ''Search'' \<in> name ` set (tools ?self)"
      using parse by (simp add: const_llm_def fixed_tool_def)
    then show "\<exists>out gs gss w' tool tool_input.
           llm ?self prompts (stop_pattern ?self) w = ((out # gs) # gss, w')
           \<and> get_tool_and_input out = Inr (tool, tool_input)
           \<and> tool \<noteq> ''Final Answer'' \<and> tool \<in> name ` set (tools ?self)" by blast
  qed
  from run_exactly_budget[of "''Q {previous_responses}''" ?self "''q''" "()"] 1 2 3
  show ?thesis by simp
qed

section \<open>A tool that is not registered\<close>

text \<open>
  Claim C4, as stated, fails: an output without the marker that the action grammar
  parses to the tool name \<open>Final Answer\<close> makes \<open>run\<close> return the tool input, also with
  an empty registry.
\<close>

theorem unknown_tool_counterexample:
  "\<not> contains FINAL_ANSWER_TOKEN (''Action: Final Answer'' @ [CHR 0x0A] @ ''Action Input: x'')
   \<and> re_search (''Action: Final Answer'' @ [CHR 0x0A] @ ''Action Input: x'')
       = Some (''Final Answer'', ''x'')
   \<and> fst (run ''Q {previous_responses}''
          \<lparr>llm = const_llm (''Action: Final Answer'' @ [CHR 0x0A] @ ''Action Input: x''),
           prompt = ''Q {previous_responses}'', tools = [], max_loops = 20,
           stop_pattern = [CHR 0x0A # OBSERVATION_TOKEN]\<rparr> ''q'' ())
       = Inr (Some ''x'')"
  by code_simp

text \<open>
  Claim C4, amended. With an empty registry and a budget of at least one pass, a first
  output of the language model that parses to a pair whose tool name is not the literal
  \<open>Final Answer\<close> ends the run in that pass with \<open>KeyError\<close> of the tool name: the
  language model has been called once, no tool has been run, nothing has been appended,
  and no second pass is made.
\<close>

theorem unknown_tool_fails:
  assumes "tools self = []" and "0 < max_loops self" and "format_py g [] = Inr p"
    and "llm self [p] (stop_pattern self) w = ((out # gs) # gss, w')"
    and "get_tool_and_input out = Inr (tool, tool_input)"
    and "tool \<noteq> ''Final Answer''"
  shows "run g self q w =
           (Inl (KeyError tool),
            \<lparr>previous_responses = [], num_loops = 1, world = w', calls = [Generate p]\<rparr>)"
proof -
  let ?s0 = "\<lparr>previous_responses = [], num_loops = 0, world = w, calls = []\<rparr>"
  from get_next_action_parsed[OF assms(4)] assms(5)
  have a: "get_next_action self p w = (Inr (out, tool, tool_input), w')" by simp
  have m: "name_to_tool_map (tools self) tool = None"
    using assms(1) by (simp add: name_to_tool_map_def)
  have "iteration g self (name_to_tool_map (tools self)) ?s0
          = Stop (Inl (KeyError tool))
              \<lparr>previous_responses = [], num_loops = 1, world = w', calls = [Generate p]\<rparr>"
    using assms(3,6) a m by (simp add: iteration_def Let_def)
  with assms(2) show ?thesis by (simp add: run_start run_loop.simps)
qed

theorem unknown_tool_fails_witness:
  "run ''Q {previous_responses}''
      \<lparr>llm = const_llm (''Thought: search'' @ [CHR 0x0A] @ ''Action: Lookup'' @ [CHR 0x0A] @ ''Action Input: cats''),
       prompt = ''Q {previous_responses}'', tools = [], max_loops = 20,
       stop_pattern = [CHR 0x0A # OBSERVATION_TOKEN]\<rparr> ''q'' ()
   = (Inl (KeyError ''Lookup''),
      \<lparr>previous_responses = [], num_loops = 1, world = (), calls = [Generate ''Q '']\<rparr>)"
proof -
  let ?out = "''Thought: search'' @ [CHR 0x0A] @ ''Action: Lookup'' @ [CHR 0x0A] @ ''Action Input: cats''"
  let ?self = "\<lparr>llm = const_llm ?out,
       prompt = ''Q {previous_responses}'', tools = [], max_loops = 20,
       stop_pattern = [CHR 0x0A # OBSERVATION_TOKEN]\<rparr> :: unit agent"
  have 1: "tools ?self = []" by simp
  have 2: "0 < max_loops ?self" by simp
  have 3: "format_py ''Q {previous_responses}'' [] = Inr ''Q ''" by simp
  have 4: "llm ?self [''Q ''] (stop_pattern ?self) () = ((?out # []) # [], ())"
    by (simp add: const_llm_def)
  have 5: "get_tool_and_input ?out = Inr (''Lookup'', ''cats'')" by code_simp
  have 6: "''Lookup'' \<noteq> ''Final Answer''" by simp
  from unknown_tool_fails[OF 1 2 3 4 5 6, of "''q''"] show ?thesis .
qed

section \<open>Running out of budget\<close>

text \<open>
  Claim C5. With the budget used up and no final answer parsed, that is when each of
  the \<open>max_loops\<close> passes has run a tool and appended its record, \<open>run\<close> returns
  \<open>None\<close>: an ordinary return, as for an answer, that carries no value, and not an
  exception. \<open>None\<close> is returned in no other case.
\<close>

theorem exhausted_budget_returns_None:
  "(fst (run g self q w) = Inr None
      \<longleftrightarrow> length (previous_responses (snd (run g self q w))) = nat (max_loops self))
   \<and> (fst (run g self q w) = Inr None
      \<longleftrightarrow> tool_runs (calls (snd (run g self q w))) = nat (max_loops self))"
proof -
  let ?m = "name_to_tool_map (tools self)"
  let ?s0 = "\<lparr>previous_responses = [], num_loops = 0, world = w, calls = []\<rparr>"
  obtain r s' where rs: "run_loop g self ?m ?s0 = (r, s')" by (cases "run_loop g self ?m ?s0") auto
  from run_loop_bounds[OF rs]
  have b: "0 \<le> num_loops s'" "num_loops s' \<le> max 0 (max_loops self)" by simp_all
  from run_loop_None_iff[OF rs]
  have n: "r = Inr None \<longrightarrow> int (length (previous_responses s')) = num_loops s'
                        \<and> max_loops self \<le> num_loops s'"
          "r \<noteq> Inr None \<longrightarrow> int (length (previous_responses s')) < num_loops s'
                        \<and> num_loops s' \<le> max_loops self" by simp_all
  from run_loop_transcript[OF rs]
  have t: "length (previous_responses s') = tool_runs (calls s')" by (simp add: tool_runs_simps)
  have "r = Inr None \<longleftrightarrow> length (previous_responses s') = nat (max_loops self)"
  proof (cases "r = Inr None")
    case True
    with n(1) b show ?thesis by auto
  next
    case False
    with n(2) show ?thesis by (auto split: if_splits)
  qed
  with t rs show ?thesis by (simp add: run_start)
qed

theorem exhausted_budget_returns_None_witness:
  "fst (run ''Q {previous_responses}''
          \<lparr>llm = const_llm (''Action: Search'' @ [CHR 0x0A] @ ''Action Input: y''),
           prompt = ''Q {previous_responses}'', tools = [fixed_tool ''Search'' ''nothing''],
           max_loops = 2, stop_pattern = [CHR 0x0A # OBSERVATION_TOKEN]\<rparr> ''q'' ()) = Inr None
   \<and> previous_responses (snd (run ''Q {previous_responses}''
          \<lparr>llm = const_llm (''Action: Search'' @ [CHR 0x0A] @ ''Action Input: y''),
           prompt = ''Q {previous_responses}'', tools = [fixed_tool ''Search'' ''nothing''],
           max_loops = 2, stop_pattern = [CHR 0x0A # OBSERVATION_TOKEN]\<rparr> ''q'' ()))
      = [record_of (''Action: Search'' @ [CHR 0x0A] @ ''Action Input: y'') ''nothing'',
         record_of (''Action: Search'' @ [CHR 0x0A] @ ''Action Input: y'') ''nothing'']"
proof -
  let ?self = "\<lparr>llm = const_llm (''Action: Search'' @ [CHR 0x0A] @ ''Action Input: y''),
           prompt = ''Q {previous_responses}'', tools = [fixed_tool ''Search'' ''nothing''],
           max_loops = 2, stop_pattern = [CHR 0x0A # OBSERVATION_TOKEN]\<rparr> :: unit agent"
  have tr: "previous_responses (snd (run ''Q {previous_responses}'' ?self ''q'' ()))
      = [record_of (''Action: Search'' @ [CHR 0x0A] @ ''Action Input: y'') ''nothing'',
         record_of (''Action: Search'' @ [CHR 0x0A] @ ''Action Input: y'') ''nothing'']"
    by code_simp
  then have "length (previous_responses (snd (run ''Q {previous_responses}'' ?self ''q'' ())))
      = nat (max_loops ?self)" by simp
  with exhausted_budget_returns_None[of "''Q {previous_responses}''" ?self "''q''" "()"]
  have "fst (run ''Q {previous_responses}'' ?self ''q'' ()) = Inr None" by blast
  with tr show ?thesis by blast
qed

section \<open>The transcript\<close>



text \<open>
  The scenario of the notebook, with a script for the language model: one call of the
  tool \<open>Proxy Statement\<close>, then the final answer. The language model is called twice.
\<close>

lemma two_pass_scenario:
  "fst (run ''Q: {previous_responses}''
          \<lparr>llm = scripted_llm, prompt = ''Q: {previous_responses}'',
           tools = [fixed_tool ''Proxy Statement'' ''A. Bourla''], max_loops = 20,
           stop_pattern = [CHR 0x0A # OBSERVATION_TOKEN]\<rparr>
          ''Who are the director nominees?''
          [''Action: Proxy Statement'' @ [CHR 0x0A] @ ''Action Input: nominees'',
           ''Final Answer: A. Bourla'']) = Inr (Some ''A. Bourla'')
   \<and> calls (snd (run ''Q: {previous_responses}''
          \<lparr>llm = scripted_llm, prompt = ''Q: {previous_responses}'',
           tools = [fixed_tool ''Proxy Statement'' ''A. Bourla''], max_loops = 20,
           stop_pattern = [CHR 0x0A # OBSERVATION_TOKEN]\<rparr>
          ''Who are the director nominees?''
          [''Action: Proxy Statement'' @ [CHR 0x0A] @ ''Action Input: nominees'',
           ''Final Answer: A. Bourla'']))
     = [Generate ''Q: '',
        Invoke ''Proxy Statement'' ''nominees'',
        Print (''Action: Proxy Statement'' @ [CHR 0x0A] @ ''Action Input: nominees'' @ [CHR 0x0A] @
               ''Observation: A. Bourla'' @ [CHR 0x0A] @ ''Thought:''),
        Generate (''Q: Action: Proxy Statement'' @ [CHR 0x0A] @ ''Action Input: nominees'' @
                  [CHR 0x0A] @ ''Observation: A. Bourla'' @ [CHR 0x0A] @ ''Thought:'')]"
  by code_simp














section \<open>The template and the reserved tool name\<close>

lemma get_next_action_prompt_field:
  "get_next_action (self\<lparr>prompt := p\<rparr>) = get_next_action self"
  by (intro ext) (simp add: get_next_action_def)

lemma iteration_prompt_field:
  "iteration g (self\<lparr>prompt := p\<rparr>) m s = iteration g self m s"
  unfolding iteration_def get_next_action_prompt_field by (rule refl)

lemma run_loop_prompt_field:
  "run_loop g (self\<lparr>prompt := p\<rparr>) m s = run_loop g self m s"
proof (induction g self m s rule: run_loop.induct)
  case (1 g self m s)
  show ?case
  proof (cases "num_loops s < max_loops self")
    case False
    then show ?thesis by (simp add: run_loop.simps)
  next
    case True
    show ?thesis
    proof (cases "iteration g self m s")
      case (Stop r0 s0)
      with True show ?thesis
        by (simp add: run_loop.simps[of g "self\<lparr>prompt := p\<rparr>"] run_loop.simps[of g self]
                      iteration_prompt_field)
    next
      case (Continue s1)
      with True "1.IH"[OF True Continue] show ?thesis
        by (simp add: run_loop.simps[of g "self\<lparr>prompt := p\<rparr>" m s] run_loop.simps[of g self m s]
                      iteration_prompt_field)
    qed
  qed
qed

text \<open>
  Claim C8: the code reads the module's global variable \<open>prompt\<close>, not the field
  \<open>prompt\<close> of the agent. Whatever template the agent was built with, the run is the
  same; an agent built with \<open>FIELD {previous_responses}\<close>, run while the global
  variable holds \<open>GLOBAL {previous_responses}\<close>, sends \<open>GLOBAL \<close> to the language model.
\<close>

theorem run_renders_global_prompt:
  "run g (self\<lparr>prompt := template\<rparr>) q w = run g self q w
   \<and> calls (snd (run ''GLOBAL {previous_responses}''
         \<lparr>llm = const_llm ''Final Answer: ok'', prompt = ''FIELD {previous_responses}'',
          tools = [], max_loops = 20, stop_pattern = [CHR 0x0A # OBSERVATION_TOKEN]\<rparr>
         ''q'' ()))
     = [Generate ''GLOBAL '']"
proof -
  have "run g (self\<lparr>prompt := template\<rparr>) q w = run g self q w"
    by (simp add: run_start run_loop_prompt_field)
  moreover have "calls (snd (run ''GLOBAL {previous_responses}''
         \<lparr>llm = const_llm ''Final Answer: ok'', prompt = ''FIELD {previous_responses}'',
          tools = [], max_loops = 20, stop_pattern = [CHR 0x0A # OBSERVATION_TOKEN]\<rparr>
         ''q'' ()))
     = [Generate ''GLOBAL '']" by code_simp
  ultimately show ?thesis by blast
qed

lemma run_loop_after_passes:
  "after_passes g self m n s = Some s' \<Longrightarrow> run_loop g self m s = run_loop g self m s'"
proof (induction n arbitrary: s)
  case 0
  then show ?case by simp
next
  case (Suc n)
  from Suc.prems have lt: "num_loops s < max_loops self"
    by (simp split: if_splits)
  with Suc.prems obtain s1 where s1: "iteration g self m s = Continue s1"
      "after_passes g self m n s1 = Some s'"
    by (cases "iteration g self m s") simp_all
  from lt s1(1) have "run_loop g self m s = run_loop g self m s1"
    by (simp add: run_loop.simps[of g self m s])
  with Suc.IH[OF s1(2)] show ?case by simp
qed

text \<open>
  Claim C9. In every pass of the loop, whatever the transcript and the registry are:
  where the output of the language model holds no final-answer marker and the regular
  expression gives a first group that is \<open>Final Answer\<close> once stripped, the pass ends
  the run with the parsed tool input as the result. The registry is not looked at: the
  log gains the call of the language model and no run of a tool, also when a tool is
  registered under that name. So \<open>run\<close> returns that input, after any number of passes
  that ran a tool.
\<close>

theorem final_answer_name_bypasses_dispatch:
  assumes "num_loops s < max_loops self"
    and "format_py g (join_nl (previous_responses s)) = Inr p"
    and "llm self [p] (stop_pattern self) (world s) = ((out # gs) # gss, w')"
    and "\<not> contains FINAL_ANSWER_TOKEN out"
    and "re_search out = Some (g1, g2)" and "strip g1 = ''Final Answer''"
  shows "iteration g self m s
           = Stop (Inr (Some (strip_chars [CHR 0x22] (strip_chars '' '' g2))))
               (s\<lparr>num_loops := num_loops s + 1, world := w', calls := calls s @ [Generate p]\<rparr>)
       \<and> run_loop g self m s
           = (Inr (Some (strip_chars [CHR 0x22] (strip_chars '' '' g2))),
              s\<lparr>num_loops := num_loops s + 1, world := w', calls := calls s @ [Generate p]\<rparr>)
       \<and> (after_passes g self (name_to_tool_map (tools self)) n
             \<lparr>previous_responses = [], num_loops = 0, world = w, calls = []\<rparr> = Some s \<longrightarrow>
          run g self q w
           = (Inr (Some (strip_chars [CHR 0x22] (strip_chars '' '' g2))),
              s\<lparr>num_loops := num_loops s + 1, world := w', calls := calls s @ [Generate p]\<rparr>))"
proof -
  let ?s' = "s\<lparr>num_loops := num_loops s + 1, world := w', calls := calls s @ [Generate p]\<rparr>"
  let ?a = "strip_chars [CHR 0x22] (strip_chars '' '' g2)"
  from assms(4,5,6) have "get_tool_and_input out = Inr (''Final Answer'', ?a)"
    by (simp add: get_tool_and_input_def)
  with get_next_action_parsed[OF assms(3)]
  have a: "get_next_action self p (world s) = (Inr (out, ''Final Answer'', ?a), w')" by simp
  have i: "iteration g self m0 s = Stop (Inr (Some ?a)) ?s'" for m0
    using assms(2) a by (simp add: iteration_def Let_def)
  have l: "run_loop g self m0 s = (Inr (Some ?a), ?s')" for m0
    using assms(1) i[of m0] by (simp add: run_loop.simps[of g self m0 s])
  have r: "after_passes g self (name_to_tool_map (tools self)) n
             \<lparr>previous_responses = [], num_loops = 0, world = w, calls = []\<rparr> = Some s \<longrightarrow>
          run g self q w = (Inr (Some ?a), ?s')"
  proof (rule impI)
    assume h: "after_passes g self (name_to_tool_map (tools self)) n
             \<lparr>previous_responses = [], num_loops = 0, world = w, calls = []\<rparr> = Some s"
    then have "run g self q w = run_loop g self (name_to_tool_map (tools self)) s"
      unfolding run_start by (rule run_loop_after_passes)
    with l[of "name_to_tool_map (tools self)"] show "run g self q w = (Inr (Some ?a), ?s')" by simp
  qed
  show ?thesis by (rule conjI[OF i conjI[OF l r]])
qed

theorem final_answer_name_bypasses_dispatch_witness:
  "run ''Q {previous_responses}''
      \<lparr>llm = scripted_llm, prompt = ''Q {previous_responses}'',
       tools = [fixed_tool ''Search'' ''found'', fixed_tool ''Final Answer'' ''never run''],
       max_loops = 20, stop_pattern = [CHR 0x0A # OBSERVATION_TOKEN]\<rparr>
      ''q''
      [''Action: Search'' @ [CHR 0x0A] @ ''Action Input: x'',
       ''Action: [Final Answer]'' @ [CHR 0x0A] @ ''Action Input: 42'']
   = (Inr (Some ''42''),
      \<lparr>previous_responses =
         [''Action: Search'' @ [CHR 0x0A] @ ''Action Input: x'' @ [CHR 0x0A] @
          ''Observation: found'' @ [CHR 0x0A] @ ''Thought:''],
       num_loops = 2, world = [],
       calls = [Generate ''Q '', Invoke ''Search'' ''x'',
                Print (''Action: Search'' @ [CHR 0x0A] @ ''Action Input: x'' @ [CHR 0x0A] @
                       ''Observation: found'' @ [CHR 0x0A] @ ''Thought:''),
                Generate (''Q Action: Search'' @ [CHR 0x0A] @ ''Action Input: x'' @ [CHR 0x0A] @
                          ''Observation: found'' @ [CHR 0x0A] @ ''Thought:'')]\<rparr>)"
proof -
  let ?g = "''Q {previous_responses}''"
  let ?out = "''Action: [Final Answer]'' @ [CHR 0x0A] @ ''Action Input: 42''"
  let ?self = "\<lparr>llm = scripted_llm, prompt = ''Q {previous_responses}'',
       tools = [fixed_tool ''Search'' ''found'', fixed_tool ''Final Answer'' ''never run''],
       max_loops = 20, stop_pattern = [CHR 0x0A # OBSERVATION_TOKEN]\<rparr>"
  let ?w = "[''Action: Search'' @ [CHR 0x0A] @ ''Action Input: x'', ?out]"
  let ?rec = "''Action: Search'' @ [CHR 0x0A] @ ''Action Input: x'' @ [CHR 0x0A] @
          ''Observation: found'' @ [CHR 0x0A] @ ''Thought:''"
  let ?p = "''Q Action: Search'' @ [CHR 0x0A] @ ''Action Input: x'' @ [CHR 0x0A] @
                          ''Observation: found'' @ [CHR 0x0A] @ ''Thought:''"
  let ?s = "\<lparr>previous_responses = [?rec], num_loops = 1, world = [?out],
       calls = [Generate ''Q '', Invoke ''Search'' ''x'', Print ?rec]\<rparr>"
  let ?m = "name_to_tool_map (tools ?self)"
  have 0: "after_passes ?g ?self ?m 1
             \<lparr>previous_responses = [], num_loops = 0, world = ?w, calls = []\<rparr> = Some ?s"
    by code_simp
  have 1: "num_loops ?s < max_loops ?self" by simp
  have 2: "format_py ?g (join_nl (previous_responses ?s)) = Inr ?p" by code_simp
  have 3: "llm ?self [?p] (stop_pattern ?self) (world ?s) = ((?out # []) # [], [])"
    by (simp add: scripted_llm_def)
  have 4: "\<not> contains FINAL_ANSWER_TOKEN ?out" by code_simp
  have 5: "re_search ?out = Some (''Final Answer'', ''42'')" by code_simp
  have 6: "strip ''Final Answer'' = ''Final Answer''" by code_simp
  have 7: "strip_chars [CHR 0x22] (strip_chars '' '' ''42'') = ''42''" by code_simp
  note t = final_answer_name_bypasses_dispatch[OF 1 2 3 4 5 6, of ?m 1 ?w "''q''",
             THEN conjunct2, THEN conjunct2, THEN mp, OF 0]
  from t show ?thesis unfolding 7 by simp
qed

section \<open>Failing passes\<close>

lemma run_loop_stopped:
  "run_loop g self m s = (r, s') \<Longrightarrow> int (length (previous_responses s)) = num_loops s \<Longrightarrow>
     r \<noteq> Inr None \<Longrightarrow> int (length (previous_responses s')) = num_loops s' - 1"
proof (induction g self m s rule: run_loop.induct)
  case (1 g self m s)
  show ?case
  proof (cases "num_loops s < max_loops self")
    case False
    with "1.prems" show ?thesis by (simp add: run_loop.simps)
  next
    case True
    show ?thesis
    proof (cases "iteration g self m s")
      case (Stop r0 s0)
      with True "1.prems" have "r = r0" "s' = s0" by (simp_all add: run_loop.simps)
      with iteration_Stop[OF Stop] "1.prems"(2) show ?thesis by simp
    next
      case (Continue s1)
      with True "1.prems" have rl: "run_loop g self m s1 = (r, s')" by (simp add: run_loop.simps)
      from iteration_Continue[OF Continue] "1.prems"(2)
      have "int (length (previous_responses s1)) = num_loops s1" by auto
      from "1.IH"[OF True Continue rl this "1.prems"(3)] show ?thesis .
    qed
  qed
qed

text \<open>
  Claim C10. A pass that ends the run, by an exception or by a return, leaves
  \<open>previous_responses\<close> as it found it; this holds in particular for a parse failure
  and for a tool name that the registry does not hold, which raise \<open>ValueError\<close> and
  \<open>KeyError\<close>. A pass that hands over to the next one has run one tool and has
  appended one record. Over a whole run the transcript holds as many records as tools
  were run, and it is one shorter than the count of passes when the run ends by an
  exception.
\<close>

theorem failing_pass_appends_nothing:
  "(iteration g self m s = Stop r s' \<longrightarrow>
       previous_responses s' = previous_responses s \<and> tool_runs (calls s') = tool_runs (calls s))
   \<and> (iteration g self m s = Continue s' \<longrightarrow>
       (\<exists>rec. previous_responses s' = previous_responses s @ [rec])
       \<and> tool_runs (calls s') = tool_runs (calls s) + 1)
   \<and> (format_py g (join_nl (previous_responses s)) = Inr p \<and>
      llm self [p] (stop_pattern self) (world s) = ((out # gs) # gss, w1) \<and>
      get_tool_and_input out = Inl e \<longrightarrow>
       iteration g self m s
         = Stop (Inl e) (s\<lparr>num_loops := num_loops s + 1, world := w1,
                            calls := calls s @ [Generate p]\<rparr>))
   \<and> (format_py g (join_nl (previous_responses s)) = Inr p \<and>
      llm self [p] (stop_pattern self) (world s) = ((out # gs) # gss, w1) \<and>
      get_tool_and_input out = Inr (tool, tool_input) \<and> tool \<noteq> ''Final Answer'' \<and>
      m tool = None \<longrightarrow>
       iteration g self m s
         = Stop (Inl (KeyError tool)) (s\<lparr>num_loops := num_loops s + 1, world := w1,
                                         calls := calls s @ [Generate p]\<rparr>))
   \<and> length (previous_responses (snd (run g self q w))) = tool_runs (calls (snd (run g self q w)))
   \<and> (\<forall>err. fst (run g self q w) = Inl err \<longrightarrow>
        int (length (previous_responses (snd (run g self q w))))
          = num_loops (snd (run g self q w)) - 1)"
proof -
  have stop: "previous_responses s' = previous_responses s \<and> tool_runs (calls s') = tool_runs (calls s)"
    if "iteration g self m s = Stop r s'"
    using iteration_Stop[OF that] by (auto simp: tool_runs_simps)
  have cont: "(\<exists>rec. previous_responses s' = previous_responses s @ [rec])
       \<and> tool_runs (calls s') = tool_runs (calls s) + 1"
    if "iteration g self m s = Continue s'"
    using iteration_Continue[OF that] by (auto simp: tool_runs_simps)
  have parse: "iteration g self m s
         = Stop (Inl e) (s\<lparr>num_loops := num_loops s + 1, world := w1,
                            calls := calls s @ [Generate p]\<rparr>)"
    if h: "format_py g (join_nl (previous_responses s)) = Inr p \<and>
      llm self [p] (stop_pattern self) (world s) = ((out # gs) # gss, w1) \<and>
      get_tool_and_input out = Inl e"
  proof -
    from h have l: "llm self [p] (stop_pattern self) (world s) = ((out # gs) # gss, w1)" by blast
    from get_next_action_parsed[OF l] h have "get_next_action self p (world s) = (Inl e, w1)"
      by simp
    with h show ?thesis by (simp add: iteration_def Let_def)
  qed
  have missing: "iteration g self m s
         = Stop (Inl (KeyError tool)) (s\<lparr>num_loops := num_loops s + 1, world := w1,
                                         calls := calls s @ [Generate p]\<rparr>)"
    if h: "format_py g (join_nl (previous_responses s)) = Inr p \<and>
      llm self [p] (stop_pattern self) (world s) = ((out # gs) # gss, w1) \<and>
      get_tool_and_input out = Inr (tool, tool_input) \<and> tool \<noteq> ''Final Answer'' \<and>
      m tool = None"
  proof -
    from h have l: "llm self [p] (stop_pattern self) (world s) = ((out # gs) # gss, w1)" by blast
    from get_next_action_parsed[OF l] h
    have "get_next_action self p (world s) = (Inr (out, tool, tool_input), w1)" by simp
    with h show ?thesis by (simp add: iteration_def Let_def)
  qed
  let ?m = "name_to_tool_map (tools self)"
  let ?s0 = "\<lparr>previous_responses = [], num_loops = 0, world = w, calls = []\<rparr>"
  obtain r0 sf where rs: "run_loop g self ?m ?s0 = (r0, sf)" by (cases "run_loop g self ?m ?s0") auto
  from run_loop_transcript[OF rs]
  have count: "length (previous_responses (snd (run g self q w)))
      = tool_runs (calls (snd (run g self q w)))"
    using rs by (simp add: run_start tool_runs_simps)
  have atomic: "\<forall>err. fst (run g self q w) = Inl err \<longrightarrow>
        int (length (previous_responses (snd (run g self q w))))
          = num_loops (snd (run g self q w)) - 1"
    using run_loop_stopped[OF rs] rs by (simp add: run_start)
  from stop cont parse missing count atomic show ?thesis by blast
qed

theorem failing_pass_appends_nothing_witness:
  "iteration ''Q {previous_responses}''
      \<lparr>llm = const_llm ''I am not sure what to do'', prompt = ''Q {previous_responses}'',
       tools = [], max_loops = 20, stop_pattern = [CHR 0x0A # OBSERVATION_TOKEN]\<rparr>
      (name_to_tool_map [])
      \<lparr>previous_responses = [''earlier record''], num_loops = 1, world = (), calls = []\<rparr>
    = Stop (Inl (ValueError
              ''Output of LLM is not parsable for next tool use: `I am not sure what to do`''))
        \<lparr>previous_responses = [''earlier record''], num_loops = 2, world = (),
         calls = [Generate ''Q earlier record'']\<rparr>
   \<and> iteration ''Q {previous_responses}''
      \<lparr>llm = const_llm (''Action: Lookup'' @ [CHR 0x0A] @ ''Action Input: cats''),
       prompt = ''Q {previous_responses}'',
       tools = [], max_loops = 20, stop_pattern = [CHR 0x0A # OBSERVATION_TOKEN]\<rparr>
      (name_to_tool_map [])
      \<lparr>previous_responses = [''earlier record''], num_loops = 1, world = (), calls = []\<rparr>
    = Stop (Inl (KeyError ''Lookup''))
        \<lparr>previous_responses = [''earlier record''], num_loops = 2, world = (),
         calls = [Generate ''Q earlier record'']\<rparr>"
proof -
  let ?g = "''Q {previous_responses}''"
  let ?s = "\<lparr>previous_responses = [''earlier record''], num_loops = 1, world = (), calls = []\<rparr>"
  let ?m = "name_to_tool_map [] :: string \<rightharpoonup> unit tool"
  have f: "format_py ?g (join_nl (previous_responses ?s)) = Inr ''Q earlier record''" by simp
  have a: ?thesis if
    "iteration ?g
      \<lparr>llm = const_llm ''I am not sure what to do'', prompt = ''Q {previous_responses}'',
       tools = [], max_loops = 20, stop_pattern = [CHR 0x0A # OBSERVATION_TOKEN]\<rparr> ?m ?s
     = Stop (Inl (ValueError
              ''Output of LLM is not parsable for next tool use: `I am not sure what to do`''))
        (?s\<lparr>num_loops := num_loops ?s + 1, world := (),
              calls := calls ?s @ [Generate ''Q earlier record'']\<rparr>)"
    "iteration ?g
      \<lparr>llm = const_llm (''Action: Lookup'' @ [CHR 0x0A] @ ''Action Input: cats''),
       prompt = ''Q {previous_responses}'',
       tools = [], max_loops = 20, stop_pattern = [CHR 0x0A # OBSERVATION_TOKEN]\<rparr> ?m ?s
     = Stop (Inl (KeyError ''Lookup''))
        (?s\<lparr>num_loops := num_loops ?s + 1, world := (),
              calls := calls ?s @ [Generate ''Q earlier record'']\<rparr>)"
    using that by simp
  show ?thesis
  proof (rule a)
    let ?self = "\<lparr>llm = const_llm ''I am not sure what to do'', prompt = ''Q {previous_responses}'',
       tools = [], max_loops = 20, stop_pattern = [CHR 0x0A # OBSERVATION_TOKEN]\<rparr> :: unit agent"
    have l: "llm ?self [''Q earlier record''] (stop_pattern ?self) (world ?s)
               = ((''I am not sure what to do'' # []) # [], ())"
      by (simp add: const_llm_def)
    have e: "get_tool_and_input ''I am not sure what to do''
        = Inl (ValueError
              ''Output of LLM is not parsable for next tool use: `I am not sure what to do`'')"
      by code_simp
    from failing_pass_appends_nothing[where g = ?g and self = ?self and m = ?m and s = ?s
        and p = "''Q earlier record''" and out = "''I am not sure what to do''"
        and gs = "[]" and gss = "[]" and ?w1.0 = "()"
        and e = "ValueError
              ''Output of LLM is not parsable for next tool use: `I am not sure what to do`''"]
      f l e
    show "iteration ?g ?self ?m ?s
     = Stop (Inl (ValueError
              ''Output of LLM is not parsable for next tool use: `I am not sure what to do`''))
        (?s\<lparr>num_loops := num_loops ?s + 1, world := (),
              calls := calls ?s @ [Generate ''Q earlier record'']\<rparr>)"
      by blast
  next
    let ?out = "''Action: Lookup'' @ [CHR 0x0A] @ ''Action Input: cats''"
    let ?self = "\<lparr>llm = const_llm ?out, prompt = ''Q {previous_responses}'',
       tools = [], max_loops = 20, stop_pattern = [CHR 0x0A # OBSERVATION_TOKEN]\<rparr> :: unit agent"
    have l: "llm ?self [''Q earlier record''] (stop_pattern ?self) (world ?s)
               = ((?out # []) # [], ())"
      by (simp add: const_llm_def)
    have e: "get_tool_and_input ?out = Inr (''Lookup'', ''cats'')" by code_simp
    have n: "''Lookup'' \<noteq> ''Final Answer''" by simp
    have m: "?m ''Lookup'' = None" by (simp add: name_to_tool_map_def)
    from failing_pass_appends_nothing[where g = ?g and self = ?self and m = ?m and s = ?s
        and p = "''Q earlier record''" and out = ?out
        and gs = "[]" and gss = "[]" and ?w1.0 = "()"
        and tool = "''Lookup''" and tool_input = "''cats''"]
      f l e n m
    show "iteration ?g ?self ?m ?s
     = Stop (Inl (KeyError ''Lookup''))
        (?s\<lparr>num_loops := num_loops ?s + 1, world := (),
              calls := calls ?s @ [Generate ''Q earlier record'']\<rparr>)"
      by blast
  qed
qed

end
